theory Spec2Isabelle
  imports Complex_Main "HOL-Library.Char_ord" "HOL-Library.List_Lexorder" "HOL-Library.Multiset"
begin

section \<open>Texture atlas generator: sequence discovery and tile compositing\<close>

text \<open>
  A shallow embedding of \<^verbatim>\<open>texture-atlas-generator.py\<close>. Python exceptions are values
  of the type \<open>error\<close>; a function that can raise returns \<open>error + 'a\<close>. Python integers
  are \<open>int\<close>. File names are \<open>string\<close>s: an Isabelle \<open>char\<close> is one of the code points
  0..255, and among those the characters matched by the regular expression class
  \<^verbatim>\<open>\d\<close> are exactly the ASCII digits.
\<close>

datatype error = AttributeError | KeyError | ZeroDivisionError | RuntimeError | ValueError

subsection \<open>The regular expression \<^verbatim>\<open>(\d+)\D*$\<close>\<close>

definition is_digit :: "char \<Rightarrow> bool" where
  "is_digit c \<longleftrightarrow> c \<in> set ''0123456789''"

text \<open>\<^verbatim>\<open>$\<close> matches at the end of the string and just before a final newline.\<close>

definition at_end :: "string \<Rightarrow> bool" where
  "at_end r \<longleftrightarrow> r = [] \<or> r = [CHR 0x0A]"

text \<open>
  \<open>nondigits_end r\<close>: the remainder \<open>r\<close> of the subject matches \<^verbatim>\<open>\D*$\<close>. The star
  either takes one more non-digit or stops, and then \<^verbatim>\<open>$\<close> has to hold.
\<close>

fun nondigits_end :: "string \<Rightarrow> bool" where
  "nondigits_end [] = True"
| "nondigits_end (c # r) = ((\<not> is_digit c \<and> nondigits_end r) \<or> at_end (c # r))"

text \<open>
  \<open>digits_then r\<close>: the whole pattern matched at the head of \<open>r\<close>; the result is the
  length of group 1. The greedy \<^verbatim>\<open>\d+\<close> first tries to take a further digit and only
  then gives the rest to \<^verbatim>\<open>\D*$\<close>.
\<close>

fun digits_then :: "string \<Rightarrow> nat option" where
  "digits_then [] = None"
| "digits_then (c # r) =
     (if is_digit c then
        (case digits_then r of
           Some k \<Rightarrow> Some (Suc k)
         | None \<Rightarrow> if nondigits_end r then Some 1 else None)
      else None)"

text \<open>
  \<open>search\<close> scans the start positions from the left and returns the first match as
  \<open>(start(1), end(1))\<close>, or \<open>None\<close> where Python's \<^verbatim>\<open>search\<close> returns \<^verbatim>\<open>None\<close>.
\<close>

fun search_from :: "nat \<Rightarrow> string \<Rightarrow> (nat \<times> nat) option" where
  "search_from p [] = None"
| "search_from p (c # r) =
     (case digits_then (c # r) of
        Some k \<Rightarrow> Some (p, p + k)
      | None \<Rightarrow> search_from (Suc p) r)"

definition search :: "string \<Rightarrow> (nat \<times> nat) option" where
  "search file = search_from 0 file"

text \<open>
  \<open>tail_ok r\<close>: after the leading digits of \<open>r\<close> no further digit follows. It is used
  to describe the matches, not by the program.
\<close>

definition tail_ok :: "string \<Rightarrow> bool" where
  "tail_ok r \<longleftrightarrow> (\<forall>c\<in>set (dropWhile is_digit r). \<not> is_digit c)"

text \<open>\<^verbatim>\<open>int(s)\<close> on a string of decimal digits.\<close>

definition digit_value :: "char \<Rightarrow> int" where
  "digit_value c = of_char c - 48"

definition int_of_digits :: "string \<Rightarrow> int" where
  "int_of_digits ds = foldl (\<lambda>a c. 10 * a + digit_value c) 0 ds"

subsection \<open>Discovery of image sequences\<close>

text \<open>
  The dictionary \<^verbatim>\<open>image_sequences\<close> maps a schema to the list of its
  \<open>(frame, file)\<close> members. It is an association list in insertion order, as a Python
  dictionary is.
\<close>

type_synonym sequences = "(string \<times> (int \<times> string) list) list"

fun dict_add :: "string \<Rightarrow> int \<times> string \<Rightarrow> sequences \<Rightarrow> sequences" where
  "dict_add schema m [] = [(schema, [m])]"
| "dict_add schema m ((k, ms) # d) =
     (if schema = k then (k, ms @ [m]) # d else (k, ms) # dict_add schema m d)"

definition schema_of :: "string \<Rightarrow> nat \<times> nat \<Rightarrow> string" where
  "schema_of file m = take (fst m) file @ ''#'' @ drop (snd m) file"

definition group1 :: "string \<Rightarrow> nat \<times> nat \<Rightarrow> string" where
  "group1 file m = take (snd m - fst m) (drop (fst m) file)"

text \<open>
  The loop over the files of the folder. A file name without a match makes
  \<^verbatim>\<open>match.start(1)\<close> raise \<open>AttributeError\<close>, since \<^verbatim>\<open>match\<close> is \<^verbatim>\<open>None\<close>.
\<close>

fun discover_files :: "string list \<Rightarrow> sequences \<Rightarrow> error + sequences" where
  "discover_files [] image_sequences = Inr image_sequences"
| "discover_files (file # files) image_sequences =
     (case search file of
        None \<Rightarrow> Inl AttributeError
      | Some m \<Rightarrow>
          discover_files files
            (dict_add (schema_of file m) (int_of_digits (group1 file m), file) image_sequences))"

text \<open>\<^verbatim>\<open>str.strip()\<close>: the white space among the code points 0..255.\<close>

definition is_space :: "char \<Rightarrow> bool" where
  "is_space c \<longleftrightarrow> (of_char c :: nat) \<in> {9, 10, 11, 12, 13, 28, 29, 30, 31, 32, 133, 160}"

definition strip :: "string \<Rightarrow> string" where
  "strip s = rev (dropWhile is_space (rev (dropWhile is_space s)))"

text \<open>
  The file system is a function \<open>fs\<close>: \<open>fs path = None\<close> when \<^verbatim>\<open>isdir(path)\<close> is
  false, and otherwise \<open>Some\<close> of the entries of \<^verbatim>\<open>listdir(path)\<close> that are regular
  files, in the order of the listing.
\<close>

type_synonym filesystem = "string \<Rightarrow> string list option"

definition discover_image_sequences_in_folder :: "filesystem \<Rightarrow> string \<Rightarrow> error + sequences" where
  "discover_image_sequences_in_folder fs path =
     (case fs (strip path) of
        None \<Rightarrow> Inr []
      | Some files \<Rightarrow> discover_files files [])"

subsection \<open>The cache of the last discovery\<close>

record cache =
  cached_image_sequences :: sequences
  cached_image_sequences_path :: "string option"
  cached_image_sequences_dirty :: bool

definition initial_cache :: cache where
  "initial_cache =
     \<lparr>cached_image_sequences = [], cached_image_sequences_path = None,
      cached_image_sequences_dirty = False\<rparr>"

text \<open>
  An exception in the discovery leaves the three globals as they were: the
  assignments come after the call.
\<close>

definition get_image_sequences_in_folder ::
  "filesystem \<Rightarrow> string \<Rightarrow> cache \<Rightarrow> (error + sequences) \<times> cache" where
  "get_image_sequences_in_folder fs path st =
     (if Some path \<noteq> cached_image_sequences_path st \<or> cached_image_sequences_dirty st then
        (case discover_image_sequences_in_folder fs path of
           Inl e \<Rightarrow> (Inl e, st)
         | Inr found \<Rightarrow>
             (Inr found,
              st\<lparr>cached_image_sequences := found, cached_image_sequences_path := Some path,
                 cached_image_sequences_dirty := False\<rparr>))
      else (Inr (cached_image_sequences st), st))"

definition mark_image_sequences_cache_dirty :: "cache \<Rightarrow> cache" where
  "mark_image_sequences_cache_dirty st = st\<lparr>cached_image_sequences_dirty := True\<rparr>"

subsection \<open>Python list operations used by the compositing loop\<close>

text \<open>
  A slice bound is clamped to the list: a negative bound counts from the end, and
  what is still outside is cut to \<open>0\<close> or to the length.
  The pixels of an image data block are sliced in the same way.
\<close>

definition slice_bound :: "nat \<Rightarrow> int \<Rightarrow> nat" where
  "slice_bound n i = (if i < 0 then nat (i + int n) else min (nat i) n)"

definition py_slice :: "'a list \<Rightarrow> int \<Rightarrow> int \<Rightarrow> 'a list" where
  "py_slice xs i j =
     (let a = slice_bound (length xs) i; b = slice_bound (length xs) j
      in take (b - a) (drop a xs))"

text \<open>
  \<^verbatim>\<open>xs[i:j] = ys\<close> removes the slice and puts \<open>ys\<close> in its place, whatever the
  length of \<open>ys\<close>: the list grows or shrinks when the two lengths differ.
\<close>

definition py_slice_assign :: "'a list \<Rightarrow> int \<Rightarrow> int \<Rightarrow> 'a list \<Rightarrow> 'a list" where
  "py_slice_assign xs i j ys =
     (let a = slice_bound (length xs) i; b = slice_bound (length xs) j
      in take a xs @ ys @ drop (max a b) xs)"

definition py_repeat :: "'a list \<Rightarrow> int \<Rightarrow> 'a list" where
  "py_repeat xs k = concat (replicate (nat k) xs)"

definition py_range :: "int \<Rightarrow> int list" where
  "py_range k = map int [0..<nat k]"

subsection \<open>Grid layout\<close>

datatype row_order = top_to_bottom | bottom_to_top

text \<open>
  \<^verbatim>\<open>ceil(image_count / column_count)\<close> and \<^verbatim>\<open>floor(i / column_count)\<close> divide
  in floating point; the model divides in the reals, which gives the same integers for
  counts below \<open>2 ^ 53\<close>.
\<close>

definition row_count_get :: "int \<Rightarrow> int \<Rightarrow> error + int" where
  "row_count_get image_count column_count =
     (if column_count = 0 then Inl ZeroDivisionError
      else Inr \<lceil>real_of_int image_count / real_of_int column_count\<rceil>)"

text \<open>
  \<^verbatim>\<open>row_count\<close> and \<^verbatim>\<open>image_count\<close> are properties with a getter. An exception
  of the getter does not reach the code that reads the property: Blender prints it,
  and the value that is read is \<open>0\<close>.
\<close>

definition prop_read :: "error + int \<Rightarrow> int" where
  "prop_read r = (case r of Inl e \<Rightarrow> 0 | Inr v \<Rightarrow> v)"

definition row_index :: "int \<Rightarrow> int \<Rightarrow> row_order \<Rightarrow> int \<Rightarrow> int" where
  "row_index row_count column_count order i =
     (if order = top_to_bottom
      then row_count - 1 - \<lfloor>real_of_int i / real_of_int column_count\<rfloor>
      else \<lfloor>real_of_int i / real_of_int column_count\<rfloor>)"

definition column_index :: "int \<Rightarrow> int \<Rightarrow> int" where
  "column_index column_count i = i mod column_count"

subsection \<open>Compositing\<close>

text \<open>
  An image as the loop reads it: its size \<open>(width, height)\<close> and its pixels, a
  sequential list of R G B A components. The same record holds the two values the
  operator computes for the tile map, \<^verbatim>\<open>tilemap_size\<close> and \<^verbatim>\<open>tilemap_pixels\<close>.
\<close>

record image =
  img_size :: "int \<times> int"
  pixels :: "real list"

definition max_size :: "image list \<Rightarrow> int \<times> int" where
  "max_size images =
     foldl (\<lambda>m img.
        (if fst (img_size img) > fst m then fst (img_size img) else fst m,
         if snd (img_size img) > snd m then snd (img_size img) else snd m))
       (0, 0) images"

text \<open>One line \<open>y\<close> of the tile goes to the tile map.\<close>

definition copy_line :: "image \<Rightarrow> int \<times> int \<Rightarrow> int \<Rightarrow> int \<Rightarrow> real list \<Rightarrow> int \<Rightarrow> real list" where
  "copy_line tile_img tilemap_size row_idx column_idx tilemap_pixels y =
     (let tile_size = img_size tile_img;
          tile_pixels = pixels tile_img;
          tile_offset = y * fst tile_size;
          tile_x1 = tile_offset * 4;
          tile_x2 = tile_x1 + fst tile_size * 4;
          tilemap_offset = row_idx * fst tilemap_size * snd tile_size + column_idx * fst tile_size;
          tilemap_x1 = (tilemap_offset + y * fst tilemap_size) * 4;
          tilemap_x2 = tilemap_x1 + fst tile_size * 4
      in py_slice_assign tilemap_pixels tilemap_x1 tilemap_x2 (py_slice tile_pixels tile_x1 tile_x2))"

text \<open>The body of the loop over \<open>i\<close>: all lines of tile \<open>i\<close>.\<close>

definition copy_tile ::
  "image list \<Rightarrow> int \<times> int \<Rightarrow> int \<Rightarrow> int \<Rightarrow> row_order \<Rightarrow> real list \<Rightarrow> int \<Rightarrow> real list" where
  "copy_tile images tilemap_size row_count column_count order tilemap_pixels i =
     (let tile_img = images ! nat i
      in foldl (copy_line tile_img tilemap_size
                  (row_index row_count column_count order i) (column_index column_count i))
           tilemap_pixels (py_range (snd (img_size tile_img))))"

definition blank_pixels :: "int \<times> int \<Rightarrow> real list" where
  "blank_pixels tilemap_size = py_repeat (py_repeat [0, 0, 0, 1] (fst tilemap_size)) (snd tilemap_size)"

text \<open>
  The tile map after the first \<open>k\<close> rounds of the loop over \<open>i\<close>; the loop runs
  \<open>len(files)\<close> rounds.
\<close>

definition tilemap_after :: "int \<Rightarrow> image list \<Rightarrow> int \<Rightarrow> int \<Rightarrow> row_order \<Rightarrow> real list" where
  "tilemap_after k images row_count column_count order =
     (let tilemap_size = (fst (max_size images) * column_count, snd (max_size images) * row_count)
      in foldl (copy_tile images tilemap_size row_count column_count order)
           (blank_pixels tilemap_size) (py_range k))"

text \<open>
  \<open>compose\<close> gives the values of the two variables of \<^verbatim>\<open>execute\<close> after the loop:
  \<^verbatim>\<open>tilemap_size\<close> (line 315) in the field \<open>img_size\<close> and \<^verbatim>\<open>tilemap_pixels\<close>
  (lines 325 to 348) in the field \<open>pixels\<close>. It is not the data block of Blender:
  the data block is made by \<^verbatim>\<open>bpy.data.images.new\<close> (line 322) and filled by the
  assignment of line 350, and both calls can differ from these values; they are the
  functions \<open>images_new\<close> and \<open>assign_pixels\<close> of the operator below.
\<close>

definition compose :: "image list \<Rightarrow> int \<Rightarrow> int \<Rightarrow> row_order \<Rightarrow> image" where
  "compose images row_count column_count order =
     \<lparr>img_size = (fst (max_size images) * column_count, snd (max_size images) * row_count),
      pixels = tilemap_after (int (length images)) images row_count column_count order\<rparr>"

text \<open>
  What the operator computes from the loaded images: the row count is the property
  \<^verbatim>\<open>row_count\<close>, read for as many images as were loaded, and the tile map is
  composed with it (\<open>execute_composes\<close> below relates this to \<open>execute\<close>). With
  \<open>column_count = 0\<close> the getter of \<^verbatim>\<open>row_count\<close> raises and \<open>0\<close> is read; the
  division of line 333 then raises \<open>ZeroDivisionError\<close> in the first round of the
  loop, if there is one.
\<close>

definition generate_texture_atlas :: "image list \<Rightarrow> int \<Rightarrow> row_order \<Rightarrow> error + image" where
  "generate_texture_atlas images column_count order =
     (let row_count = prop_read (row_count_get (int (length images)) column_count)
      in if column_count = 0 \<and> images \<noteq> [] then Inl ZeroDivisionError
         else Inr (compose images row_count column_count order))"

subsection \<open>The operator\<close>

record props =
  props_path :: string
  props_sequence :: string
  props_column_count :: int
  props_row_order :: row_order

definition image_count_get :: "filesystem \<Rightarrow> props \<Rightarrow> cache \<Rightarrow> (error + int) \<times> cache" where
  "image_count_get fs p st =
     (case get_image_sequences_in_folder fs (props_path p) st of
        (Inl e, st') \<Rightarrow> (Inl e, st')
      | (Inr image_sequences, st') \<Rightarrow>
          (case map_of image_sequences (props_sequence p) of
             None \<Rightarrow> (Inr 0, st')
           | Some members \<Rightarrow> (Inr (int (length members)), st')))"

text \<open>
  The reads of the two properties, \<^verbatim>\<open>props.image_count\<close> and
  \<^verbatim>\<open>props.row_count\<close>: the getter of \<^verbatim>\<open>row_count\<close> reads
  \<^verbatim>\<open>self.image_count\<close>.
\<close>

definition props_image_count :: "filesystem \<Rightarrow> props \<Rightarrow> cache \<Rightarrow> int \<times> cache" where
  "props_image_count fs p st =
     (case image_count_get fs p st of (r, st') \<Rightarrow> (prop_read r, st'))"

definition props_row_count :: "filesystem \<Rightarrow> props \<Rightarrow> cache \<Rightarrow> int \<times> cache" where
  "props_row_count fs p st =
     (case props_image_count fs p st of
        (image_count, st') \<Rightarrow> (prop_read (row_count_get image_count (props_column_count p)), st'))"

text \<open>
  \<open>load folder file\<close> stands for \<^verbatim>\<open>bpy.data.images.load(join(folder, file))\<close>, which
  raises \<open>RuntimeError\<close> when the file cannot be loaded. \<open>loaded_files\<close> are the
  files that were loaded when the loop of line 307 ends or raises.
\<close>

type_synonym loader = "string \<Rightarrow> string \<Rightarrow> image option"

fun load_images :: "loader \<Rightarrow> string \<Rightarrow> string list \<Rightarrow> error + image list" where
  "load_images load folder_path [] = Inr []"
| "load_images load folder_path (file # files) =
     (case load folder_path file of
        None \<Rightarrow> Inl RuntimeError
      | Some img \<Rightarrow>
          (case load_images load folder_path files of
             Inl e \<Rightarrow> Inl e
           | Inr images \<Rightarrow> Inr (img # images)))"

definition loaded_files :: "loader \<Rightarrow> string \<Rightarrow> string list \<Rightarrow> string list" where
  "loaded_files load folder_path files = takeWhile (\<lambda>file. load folder_path file \<noteq> None) files"

text \<open>
  \<^verbatim>\<open>bpy.data.images.new(name, width, height)\<close> makes a data block of at least one
  pixel: a width or height below 1 is raised to 1. \<open>images_new\<close> is the size of the
  data block that is made.
\<close>

definition images_new :: "int \<times> int \<Rightarrow> int \<times> int" where
  "images_new tilemap_size = (max 1 (fst tilemap_size), max 1 (snd tilemap_size))"

text \<open>
  \<^verbatim>\<open>tilemap_img.pixels = tilemap_pixels\<close> (line 350) raises \<open>ValueError\<close> unless the
  list has four components for every pixel of the data block.
\<close>

definition assign_pixels :: "int \<times> int \<Rightarrow> real list \<Rightarrow> error + unit" where
  "assign_pixels block_size tilemap_pixels =
     (if int (length tilemap_pixels) = fst block_size * snd block_size * 4 then Inr ()
      else Inl ValueError)"

text \<open>
  What the operator asks of Blender, in the order of the calls: a file is loaded, the
  data block of the tile map is made with a size, a list is assigned to the pixels of
  that data block.
\<close>

datatype event = Image_Load string | Image_New "int \<times> int" | Pixels_Assign "real list"

text \<open>
  Lines 315 to 350, for the loaded images and the row count that was read: the data
  block is made, the list of pixels is filled by the loop, and the list is assigned to
  the data block. The result is how this part ends and the calls it made. The
  division by \<open>column_count\<close> (line 333) raises in the first round of the loop, after
  the data block was made.
\<close>

definition create_tilemap ::
  "image list \<Rightarrow> int \<Rightarrow> int \<Rightarrow> row_order \<Rightarrow> (error + unit) \<times> event list" where
  "create_tilemap images row_count column_count order =
     (let tilemap_size = (fst (max_size images) * column_count, snd (max_size images) * row_count);
          block_size = images_new tilemap_size;
          tilemap_pixels = tilemap_after (int (length images)) images row_count column_count order
      in if column_count = 0 \<and> images \<noteq> [] then (Inl ZeroDivisionError, [Image_New block_size])
         else (case assign_pixels block_size tilemap_pixels of
                 Inl e \<Rightarrow> (Inl e, [Image_New block_size])
               | Inr u \<Rightarrow> (Inr (), [Image_New block_size, Pixels_Assign tilemap_pixels])))"

text \<open>
  \<open>execute\<close> returns how the run ends (\<open>Inr ()\<close> for \<^verbatim>\<open>{'FINISHED'}\<close>, or the
  exception that ends it), the cache, and the calls that were made up to there. The
  exceptions in the order of the code: line 292 (the discovery), line 294 (the lookup
  of the sequence), line 308 (a file that cannot be loaded), line 333 (the division by
  \<open>column_count\<close>), line 350 (the assignment of the pixels). The name of the data
  block, the replacement of an older one, the removal of the loaded images after line
  350 and the report are left out.
\<close>

definition execute ::
  "filesystem \<Rightarrow> loader \<Rightarrow> props \<Rightarrow> cache \<Rightarrow> (error + unit) \<times> cache \<times> event list" where
  "execute fs load p st =
     (case get_image_sequences_in_folder fs (props_path p) st of
        (Inl e, st1) \<Rightarrow> (Inl e, st1, [])
      | (Inr image_sequences, st1) \<Rightarrow>
          (case map_of image_sequences (props_sequence p) of
             None \<Rightarrow> (Inl KeyError, st1, [])
           | Some members \<Rightarrow>
               (let files = map snd (sort_key snd members);
                    loads = map Image_Load (loaded_files load (props_path p) files)
                in case props_row_count fs p st1 of
                     (row_count, st2) \<Rightarrow>
                       (case load_images load (props_path p) files of
                          Inl e \<Rightarrow> (Inl e, st2, loads)
                        | Inr images \<Rightarrow>
                            (case create_tilemap images row_count (props_column_count p)
                                    (props_row_order p) of
                               (r, calls) \<Rightarrow> (r, st2, loads @ calls))))))"

subsection \<open>Notions used in the statements\<close>

text \<open>
  \<open>last_digit_run file pre ds suf\<close> follows the words of the specification: \<open>ds\<close> is
  the rightmost maximal run of decimal digits of \<open>file\<close>; only non-digits follow it, and
  the character before it, if there is one, is not a digit. \<open>members_of\<close> is the lookup
  \<^verbatim>\<open>image_sequences[schema]\<close>, with the empty list for a missing key. \<open>mask\<close> and
  \<open>frame\<close> name the schema and the frame number that the loop computes for a file.
  \<open>renders_fs files\<close> is a file system with the one folder \<^verbatim>\<open>renders\<close>.
\<close>

definition last_digit_run :: "string \<Rightarrow> string \<Rightarrow> string \<Rightarrow> string \<Rightarrow> bool" where
  "last_digit_run file pre ds suf \<longleftrightarrow>
     file = pre @ ds @ suf \<and> ds \<noteq> [] \<and> (\<forall>c\<in>set ds. is_digit c) \<and>
     (\<forall>c\<in>set suf. \<not> is_digit c) \<and> (pre = [] \<or> \<not> is_digit (last pre))"

definition members_of :: "sequences \<Rightarrow> string \<Rightarrow> (int \<times> string) list" where
  "members_of d schema = (case map_of d schema of None \<Rightarrow> [] | Some ms \<Rightarrow> ms)"

definition mask :: "string \<Rightarrow> string" where
  "mask file = (case search file of None \<Rightarrow> [] | Some m \<Rightarrow> schema_of file m)"

definition frame :: "string \<Rightarrow> int" where
  "frame file = (case search file of None \<Rightarrow> 0 | Some m \<Rightarrow> int_of_digits (group1 file m))"

definition renders_fs :: "string list \<Rightarrow> filesystem" where
  "renders_fs files = (\<lambda>p. if p = ''renders'' then Some files else None)"

text \<open>
  Four small tiles for the examples, and the property of a dictionary that every group
  has a member.
\<close>

definition tile_a :: image where
  "tile_a = \<lparr>img_size = (2, 1), pixels = [1, 1, 1, 1, 2, 2, 2, 1]\<rparr>"

definition tile_b :: image where
  "tile_b = \<lparr>img_size = (1, 1), pixels = [3, 3, 3, 1]\<rparr>"

definition tile_c :: image where
  "tile_c = \<lparr>img_size = (1, 2), pixels = [4, 4, 4, 1, 5, 5, 5, 1]\<rparr>"

definition tile_d :: image where
  "tile_d = \<lparr>img_size = (1, 3), pixels = [6, 6, 6, 1, 7, 7, 7, 1, 8, 8, 8, 1]\<rparr>"

definition groups_nonempty :: "sequences \<Rightarrow> bool" where
  "groups_nonempty d \<longleftrightarrow> (\<forall>(k, ms)\<in>set d. ms \<noteq> [])"

text \<open>An image loader and operator properties for the examples.\<close>

definition example_loader :: loader where
  "example_loader folder file = (if file = ''a1.png'' then Some tile_a else None)"

definition example_props :: props where
  "example_props = \<lparr>props_path = ''renders'', props_sequence = ''a#.png'',
                     props_column_count = 1, props_row_order = top_to_bottom\<rparr>"

text \<open>
  For the compositing loop. \<open>valid_image\<close> is the invariant of an image data block:
  four components for each of its \<open>width * height\<close> pixels. \<open>line_start\<close> is the
  value of \<^verbatim>\<open>tilemap_x1\<close> and \<open>tile_line\<close> the slice of the tile that is
  copied (\<open>copy_line_eq\<close> below); \<open>tilemap_size_of\<close> is \<^verbatim>\<open>tilemap_size\<close>, and
  \<open>buffer_before images row_count column_count order i y\<close> is the tile map just before
  line \<open>y\<close> of tile \<open>i\<close> is copied. \<open>written_by \<dots> i p\<close>: some line of tile \<open>i\<close> is
  assigned to a slice that contains position \<open>p\<close>. \<open>pixel\<close> reads the four components
  of a pixel, \<open>cell_is_background\<close> says that every pixel of a grid cell is opaque black,
  and \<open>free_cells\<close> are the cells of the grid that no image index is placed in.
\<close>

definition valid_image :: "image \<Rightarrow> bool" where
  "valid_image img \<longleftrightarrow>
     0 \<le> fst (img_size img) \<and> 0 \<le> snd (img_size img) \<and>
     int (length (pixels img)) = fst (img_size img) * snd (img_size img) * 4"

definition line_start :: "int \<times> int \<Rightarrow> int \<times> int \<Rightarrow> int \<Rightarrow> int \<Rightarrow> int \<Rightarrow> int" where
  "line_start tile_size tilemap_size row_idx column_idx y =
     (row_idx * fst tilemap_size * snd tile_size + column_idx * fst tile_size
        + y * fst tilemap_size) * 4"

definition tile_line :: "image \<Rightarrow> int \<Rightarrow> real list" where
  "tile_line tile_img y =
     py_slice (pixels tile_img) (y * fst (img_size tile_img) * 4)
       (y * fst (img_size tile_img) * 4 + fst (img_size tile_img) * 4)"

definition tilemap_size_of :: "image list \<Rightarrow> int \<Rightarrow> int \<Rightarrow> int \<times> int" where
  "tilemap_size_of images row_count column_count =
     (fst (max_size images) * column_count, snd (max_size images) * row_count)"

definition buffer_before :: "image list \<Rightarrow> int \<Rightarrow> int \<Rightarrow> row_order \<Rightarrow> nat \<Rightarrow> int \<Rightarrow> real list" where
  "buffer_before images row_count column_count order i y =
     foldl (copy_line (images ! i) (tilemap_size_of images row_count column_count)
              (row_index row_count column_count order (int i)) (column_index column_count (int i)))
       (tilemap_after (int i) images row_count column_count order) (py_range y)"

definition written_by :: "image list \<Rightarrow> int \<Rightarrow> int \<Rightarrow> row_order \<Rightarrow> nat \<Rightarrow> nat \<Rightarrow> bool" where
  "written_by images row_count column_count order i p \<longleftrightarrow>
     (\<exists>y. 0 \<le> y \<and> y < snd (img_size (images ! i)) \<and>
        line_start (img_size (images ! i)) (tilemap_size_of images row_count column_count)
          (row_index row_count column_count order (int i)) (column_index column_count (int i)) y \<le> int p \<and>
        int p < line_start (img_size (images ! i)) (tilemap_size_of images row_count column_count)
          (row_index row_count column_count order (int i)) (column_index column_count (int i)) y
          + fst (img_size (images ! i)) * 4)"

definition pixel :: "image \<Rightarrow> int \<Rightarrow> int \<Rightarrow> real list" where
  "pixel img x y =
     py_slice (pixels img) ((y * fst (img_size img) + x) * 4) ((y * fst (img_size img) + x) * 4 + 4)"

definition cell_is_background :: "image \<Rightarrow> int \<times> int \<Rightarrow> int \<Rightarrow> int \<Rightarrow> bool" where
  "cell_is_background out cell r c \<longleftrightarrow>
     (\<forall>y\<in>set (py_range (snd cell)). \<forall>x\<in>set (py_range (fst cell)).
        pixel out (c * fst cell + x) (r * snd cell + y) = [0, 0, 0, 1])"

definition free_cells :: "int \<Rightarrow> int \<Rightarrow> row_order \<Rightarrow> nat \<Rightarrow> (int \<times> int) set" where
  "free_cells row_count column_count order n =
     {(r, c). 0 \<le> r \<and> r < row_count \<and> 0 \<le> c \<and> c < column_count \<and>
        (\<forall>i<n. (row_index row_count column_count order (int i), column_index column_count (int i)) \<noteq> (r, c))}"

section \<open>Properties of the discovery\<close>

subsection \<open>What the regular expression matches\<close>

lemma at_end_nondigit: "at_end r \<Longrightarrow> \<forall>c\<in>set r. \<not> is_digit c"
  by (auto simp: at_end_def is_digit_def)

lemma nondigits_end_iff: "nondigits_end r \<longleftrightarrow> (\<forall>c\<in>set r. \<not> is_digit c)"
proof (induction r)
  case Nil
  then show ?case by simp
next
  case (Cons c r)
  show ?case using Cons.IH at_end_nondigit[of "c # r"] by auto
qed

lemma digits_then_eq:
  "digits_then r =
     (if r \<noteq> [] \<and> is_digit (hd r) \<and> tail_ok r then Some (length (takeWhile is_digit r)) else None)"
proof (induction r)
  case Nil
  then show ?case by simp
next
  case (Cons c r)
  show ?case
  proof (cases "is_digit c")
    case False
    then show ?thesis by simp
  next
    case True
    have t: "tail_ok (c # r) = tail_ok r" using True by (simp add: tail_ok_def)
    show ?thesis
    proof (cases "digits_then r")
      case (Some k)
      with Cons.IH True t show ?thesis by (auto split: if_splits)
    next
      case None
      show ?thesis
      proof (cases "\<forall>c\<in>set r. \<not> is_digit c")
        case True
        then have "takeWhile is_digit r = []" by (cases r) auto
        moreover have "tail_ok r" using True
          by (metis tail_ok_def set_dropWhileD)
        ultimately show ?thesis using None \<open>is_digit c\<close> True t
          by (simp add: nondigits_end_iff)
      next
        case False
        have "\<not> tail_ok r"
        proof (cases "r \<noteq> [] \<and> is_digit (hd r)")
          case True
          then show ?thesis using None Cons.IH by (auto split: if_splits)
        next
          case False
          then have "dropWhile is_digit r = r" by (cases r) auto
          then show ?thesis using \<open>\<not> (\<forall>c\<in>set r. \<not> is_digit c)\<close> by (simp add: tail_ok_def)
        qed
        then show ?thesis using None \<open>is_digit c\<close> False t
          by (simp add: nondigits_end_iff)
      qed
    qed
  qed
qed

lemma search_from_unfold:
  "r \<noteq> [] \<Longrightarrow> search_from p r =
     (case digits_then r of Some k \<Rightarrow> Some (p, p + k) | None \<Rightarrow> search_from (Suc p) (tl r))"
  by (cases r) (simp_all del: digits_then.simps cong: option.case_cong)

lemma search_from_None: "search_from p r = None \<longleftrightarrow> (\<forall>c\<in>set r. \<not> is_digit c)"
proof (induction r arbitrary: p)
  case Nil
  then show ?case by simp
next
  case (Cons c r)
  show ?case
  proof (cases "digits_then (c # r)")
    case (Some k)
    then have "is_digit c" by (auto split: if_splits)
    then show ?thesis using Some by auto
  next
    case None
    have "\<not> is_digit c" if "\<forall>c\<in>set r. \<not> is_digit c"
    proof
      assume d: "is_digit c"
      from that have "dropWhile is_digit r = r" by (cases r) auto
      then have "tail_ok (c # r)" using d that by (simp add: tail_ok_def)
      then show False using None d by (simp add: digits_then_eq del: digits_then.simps)
    qed
    then show ?thesis using None Cons.IH[of "Suc p"] by auto
  qed
qed

lemma search_from_split:
  assumes "r = pre @ ds @ suf" "ds \<noteq> []" "\<forall>c\<in>set ds. is_digit c" "\<forall>c\<in>set suf. \<not> is_digit c"
    "pre = [] \<or> \<not> is_digit (last pre)"
  shows "search_from p r = Some (p + length pre, p + length pre + length ds)"
  using assms
proof (induction pre arbitrary: p r)
  case Nil
  have tw: "takeWhile is_digit (ds @ suf) = ds"
    using Nil.prems(3,4) by (cases suf) (auto simp: takeWhile_append2 takeWhile_append1)
  have dw: "dropWhile is_digit (ds @ suf) = suf"
    using Nil.prems(3,4) by (cases suf) (auto simp: dropWhile_append2)
  have ne: "ds @ suf \<noteq> []" using Nil.prems(2) by simp
  have hd: "is_digit (hd (ds @ suf))" using Nil.prems(2,3) by (cases ds) auto
  have tl: "tail_ok (ds @ suf)" unfolding tail_ok_def dw using Nil.prems(4) .
  have "digits_then (ds @ suf) = Some (length ds)"
    unfolding digits_then_eq[of "ds @ suf"] tw using ne hd tl by simp
  moreover have "search_from p (ds @ suf) = (case digits_then (ds @ suf) of
        Some k \<Rightarrow> Some (p, p + k) | None \<Rightarrow> search_from (Suc p) (tl (ds @ suf)))"
    using ne by (rule search_from_unfold)
  ultimately show ?case using Nil.prems(1) by simp
next
  case (Cons c pre)
  let ?r' = "pre @ ds @ suf"
  have r: "r = c # ?r'" using Cons.prems(1) by simp
  have nd: "\<exists>x\<in>set (c # pre). \<not> is_digit x"
  proof -
    have "last (c # pre) \<in> set (c # pre)" by (rule last_in_set) simp
    then show ?thesis using Cons.prems(5) by blast
  qed
  have dg: "\<exists>y\<in>set ds. is_digit y" using Cons.prems(2,3) by (cases ds) auto
  have nt: "\<not> tail_ok (c # ?r')" if "is_digit c"
  proof -
    obtain a x b where ab: "c # pre = a @ x # b" "\<forall>y\<in>set a. is_digit y" "\<not> is_digit x"
      using split_list_first_prop[OF nd] by blast
    have "dropWhile is_digit ((a @ x # b) @ ds @ suf) = x # b @ ds @ suf"
      using ab(2,3) by (simp add: dropWhile_append3)
    then have "dropWhile is_digit (c # ?r') = x # b @ ds @ suf"
      using ab(1) by (metis append_Cons)
    then show ?thesis using dg unfolding tail_ok_def by auto
  qed
  have dn: "digits_then (c # ?r') = None"
    unfolding digits_then_eq[of "c # ?r'"] using nt by auto
  have p: "pre = [] \<or> \<not> is_digit (last pre)" using Cons.prems(5) by (auto split: if_splits)
  have ih: "search_from (Suc p) ?r' = Some (Suc p + length pre, Suc p + length pre + length ds)"
    by (rule Cons.IH[OF refl Cons.prems(2,3,4) p])
  have "search_from p (c # ?r') = search_from (Suc p) ?r'"
    unfolding search_from.simps(2)[of p c ?r'] dn by simp
  then show ?case unfolding r using ih by simp
qed

lemma search_None: "search file = None \<longleftrightarrow> (\<forall>c\<in>set file. \<not> is_digit c)"
  by (simp add: search_def search_from_None)

lemma discover_files_raises:
  "\<exists>f\<in>set files. \<forall>c\<in>set f. \<not> is_digit c \<Longrightarrow> discover_files files d = Inl AttributeError"
proof (induction files arbitrary: d)
  case Nil
  then show ?case by simp
next
  case (Cons f files)
  show ?case
  proof (cases "search f")
    case None
    then show ?thesis by simp
  next
    case (Some m)
    then have "\<exists>c\<in>set f. is_digit c" using search_None[of f] by auto
    then have "\<exists>f\<in>set files. \<forall>c\<in>set f. \<not> is_digit c" using Cons.prems by auto
    then show ?thesis using Some Cons.IH by simp
  qed
qed

text \<open>
  C2. A file name without any decimal digit is not dropped: the search finds no match,
  \<^verbatim>\<open>match.start(1)\<close> raises, and the discovery of the whole folder ends with
  \<open>AttributeError\<close> instead of returning the groups of the other files.
\<close>

theorem discover_without_digits_raises:
  "discover_image_sequences_in_folder
     (\<lambda>p. if p = ''renders'' then Some [''frame_001.png'', ''readme.txt''] else None) ''renders''
   = Inl AttributeError"
proof -
  have "strip ''renders'' = ''renders''" by code_simp
  moreover have "discover_files [''frame_001.png'', ''readme.txt''] [] = Inl AttributeError"
    by (rule discover_files_raises) (simp add: is_digit_def)
  ultimately show ?thesis by (simp add: discover_image_sequences_in_folder_def)
qed

subsection \<open>The groups\<close>

lemma last_digit_run_search:
  "last_digit_run file pre ds suf \<Longrightarrow> search file = Some (length pre, length pre + length ds)"
  unfolding last_digit_run_def search_def
  using search_from_split[of "file" pre ds suf 0] by simp

text \<open>The run is determined by the file name.\<close>

lemma last_digit_run_unique:
  assumes "last_digit_run f pre ds suf" and "last_digit_run f pre' ds' suf'"
  shows "pre' = pre \<and> ds' = ds \<and> suf' = suf"
proof -
  have "Some (length pre, length pre + length ds) = Some (length pre', length pre' + length ds')"
    using last_digit_run_search[OF assms(1)] last_digit_run_search[OF assms(2)] by simp
  then have l: "length pre' = length pre" "length ds' = length ds" by simp_all
  have e: "pre @ ds @ suf = pre' @ ds' @ suf'"
    using assms by (simp add: last_digit_run_def)
  then have p: "pre' = pre" using l(1) by simp
  then have "ds @ suf = ds' @ suf'" using e by simp
  then have "ds' = ds \<and> suf' = suf" using l(2) by simp
  then show ?thesis using p by simp
qed

lemma last_digit_run_exists:
  "\<exists>c\<in>set r. is_digit c \<Longrightarrow> \<exists>pre ds suf. last_digit_run r pre ds suf"
proof (induction r)
  case Nil
  then show ?case by simp
next
  case (Cons c r)
  show ?case
  proof (cases "\<exists>x\<in>set r. is_digit x")
    case False
    then have "is_digit c" using Cons.prems by auto
    then have "last_digit_run (c # r) [] [c] r"
      using False by (simp add: last_digit_run_def)
    then show ?thesis by blast
  next
    case True
    then obtain pre ds suf where run: "last_digit_run r pre ds suf"
      using Cons.IH by blast
    show ?thesis
    proof (cases "pre = [] \<and> is_digit c")
      case True
      then have "last_digit_run (c # r) [] (c # ds) suf"
        using run by (simp add: last_digit_run_def)
      then show ?thesis by blast
    next
      case False
      then have "last_digit_run (c # r) (c # pre) ds suf"
        using run by (auto simp: last_digit_run_def)
      then show ?thesis by blast
    qed
  qed
qed

lemma last_digit_run_mask:
  "last_digit_run file pre ds suf \<Longrightarrow> mask file = pre @ ''#'' @ suf \<and> frame file = int_of_digits ds"
  using last_digit_run_search[of "file" pre ds suf]
  by (auto simp: mask_def frame_def schema_of_def group1_def last_digit_run_def)

lemma map_of_dict_add:
  "map_of (dict_add k v d) k' = (if k' = k then Some (members_of d k @ [v]) else map_of d k')"
  by (induction d) (auto simp: members_of_def)

lemma members_of_dict_add:
  "members_of (dict_add k v d) k' = members_of d k' @ (if k' = k then [v] else [])"
  by (simp add: members_of_def map_of_dict_add)

lemma keys_dict_add: "fst ` set (dict_add k v d) = insert k (fst ` set d)"
  by (induction k v d rule: dict_add.induct) auto

lemma distinct_dict_add: "distinct (map fst d) \<Longrightarrow> distinct (map fst (dict_add k v d))"
proof (induction d)
  case Nil
  then show ?case by simp
next
  case (Cons a d)
  obtain k' ms where a: "a = (k', ms)" by (cases a)
  show ?case using Cons keys_dict_add[of k v d] a by (auto simp: image_iff)
qed

lemma discover_files_step:
  "search file = Some m \<Longrightarrow>
   discover_files (file # files) d = discover_files files (dict_add (mask file) (frame file, file) d)"
  by (simp add: mask_def frame_def)

lemma discover_files_returns:
  "\<forall>f\<in>set files. \<exists>c\<in>set f. is_digit c \<Longrightarrow> \<exists>g. discover_files files d = Inr g"
proof (induction files arbitrary: d)
  case Nil
  then show ?case by simp
next
  case (Cons f files)
  then obtain m where "search f = Some m" using search_None[of f] by auto
  then show ?case using Cons by (simp del: discover_files.simps add: discover_files_step)
qed

lemma discover_files_groups:
  "discover_files files d = Inr g \<Longrightarrow>
     fst ` set g = fst ` set d \<union> mask ` set files \<and>
     (\<forall>k. members_of g k = members_of d k @ map (\<lambda>f. (frame f, f)) (filter (\<lambda>f. mask f = k) files)) \<and>
     (distinct (map fst d) \<longrightarrow> distinct (map fst g)) \<and>
     (\<forall>f\<in>set files. \<exists>c\<in>set f. is_digit c)"
proof (induction files arbitrary: d)
  case Nil
  then show ?case by simp
next
  case (Cons f files)
  from Cons.prems obtain m where m: "search f = Some m" by (cases "search f") auto
  then have dg: "\<exists>c\<in>set f. is_digit c" using search_None[of f] by auto
  let ?d = "dict_add (mask f) (frame f, f) d"
  have "discover_files files ?d = Inr g" using Cons.prems discover_files_step[OF m] by simp
  from Cons.IH[OF this] have
    k: "fst ` set g = fst ` set ?d \<union> mask ` set files" and
    ms: "\<And>k. members_of g k = members_of ?d k @ map (\<lambda>f. (frame f, f)) (filter (\<lambda>f. mask f = k) files)" and
    ds: "distinct (map fst ?d) \<longrightarrow> distinct (map fst g)" and
    al: "\<forall>f\<in>set files. \<exists>c\<in>set f. is_digit c"
    by blast+
  have 1: "fst ` set g = fst ` set d \<union> mask ` set (f # files)"
    unfolding k keys_dict_add by auto
  have 2: "members_of g k = members_of d k @ map (\<lambda>f. (frame f, f)) (filter (\<lambda>f. mask f = k) (f # files))" for k
    unfolding ms[of k] members_of_dict_add by simp
  have 3: "distinct (map fst d) \<longrightarrow> distinct (map fst g)"
    using ds distinct_dict_add by blast
  have 4: "\<forall>f\<in>set (f # files). \<exists>c\<in>set f. is_digit c" using al dg by simp
  show ?case using 1 2 3 4 by blast
qed

lemma members_of_set:
  "distinct (map fst d) \<Longrightarrow> (k, ms) \<in> set d \<Longrightarrow> members_of d k = ms"
  by (simp add: members_of_def)

lemma last_digit_run_roundtrip:
  "last_digit_run f pre ds suf \<Longrightarrow>
   take (length pre) (pre @ ''#'' @ suf) @ ds @ drop (Suc (length pre)) (pre @ ''#'' @ suf) = f"
  by (simp add: last_digit_run_def)

lemma strip_renders: "strip ''renders'' = ''renders''"
  by code_simp

lemma discover_example:
  "discover_image_sequences_in_folder
     (renders_fs [''frame_001.png'', ''frame_002.png'', ''frame_010.png'']) ''renders''
   = Inr [(''frame_#.png'', [(1, ''frame_001.png''), (2, ''frame_002.png''), (10, ''frame_010.png'')])]"
  by code_simp

text \<open>
  When every file of the folder has a decimal digit, the discovery returns. Each file
  is split at its last digit run (the rightmost maximal run, followed by non-digits only
  up to the end); the search reports exactly that run, and the file is a member, with the
  integer value of the run as its frame, of the group whose key is the file name with
  the run replaced by one \<^verbatim>\<open>#\<close>. Conversely every member of every returned group is a
  file of the folder, its group key is that mask and its frame that value, and putting
  the digits back at the place of the placeholder gives the file name again.
\<close>

lemma discover_groups_by_last_digit_run:
  assumes "fs (strip path) = Some files" and "\<forall>f\<in>set files. \<exists>c\<in>set f. is_digit c"
  shows "\<exists>g. discover_image_sequences_in_folder fs path = Inr g \<and>
    (\<forall>f\<in>set files. \<exists>pre ds suf. last_digit_run f pre ds suf \<and>
        search f = Some (length pre, length pre + length ds) \<and>
        (int_of_digits ds, f) \<in> set (members_of g (pre @ ''#'' @ suf))) \<and>
    (\<forall>(schema, ms)\<in>set g. \<forall>(frm, f)\<in>set ms. f \<in> set files \<and>
        (\<exists>pre ds suf. last_digit_run f pre ds suf \<and> schema = pre @ ''#'' @ suf \<and>
           frm = int_of_digits ds \<and>
           take (length pre) schema @ ds @ drop (Suc (length pre)) schema = f))"
proof -
  obtain g where g: "discover_files files [] = Inr g"
    using discover_files_returns[OF assms(2)] by blast
  have d: "discover_image_sequences_in_folder fs path = Inr g"
    using g assms(1) by (simp add: discover_image_sequences_in_folder_def)
  have ms: "members_of g k = map (\<lambda>f. (frame f, f)) (filter (\<lambda>f. mask f = k) files)" for k
    using discover_files_groups[OF g] by (simp add: members_of_def)
  have dist: "distinct (map fst g)" using discover_files_groups[OF g] by simp
  have 1: "\<exists>pre ds suf. last_digit_run f pre ds suf \<and>
        search f = Some (length pre, length pre + length ds) \<and>
        (int_of_digits ds, f) \<in> set (members_of g (pre @ ''#'' @ suf))" if f: "f \<in> set files" for f
  proof -
    obtain pre ds suf where run: "last_digit_run f pre ds suf"
      using last_digit_run_exists assms(2) f by blast
    have "(frame f, f) \<in> set (members_of g (mask f))" unfolding ms using f by simp
    then have "(int_of_digits ds, f) \<in> set (members_of g (pre @ ''#'' @ suf))"
      using last_digit_run_mask[OF run] by simp
    then show ?thesis using run last_digit_run_search[OF run] by blast
  qed
  have 2: "f \<in> set files \<and>
        (\<exists>pre ds suf. last_digit_run f pre ds suf \<and> schema = pre @ ''#'' @ suf \<and>
           frm = int_of_digits ds \<and>
           take (length pre) schema @ ds @ drop (Suc (length pre)) schema = f)"
    if a: "(schema, ms) \<in> set g" and b: "(frm, f) \<in> set ms" for schema ms frm f
  proof -
    have "members_of g schema = ms" using members_of_set[OF dist a] .
    then have "(frm, f) \<in> set (map (\<lambda>f. (frame f, f)) (filter (\<lambda>f. mask f = schema) files))"
      using b ms[of schema] by simp
    then have f: "f \<in> set files" and m: "mask f = schema" and fr: "frm = frame f" by auto
    obtain pre ds suf where run: "last_digit_run f pre ds suf"
      using last_digit_run_exists assms(2) f by blast
    have "schema = pre @ ''#'' @ suf" "frm = int_of_digits ds"
      using last_digit_run_mask[OF run] m fr by simp_all
    then show ?thesis using f run last_digit_run_roundtrip[OF run] by blast
  qed
  show ?thesis using d 1 2 by blast
qed

text \<open>
  The frame is the decimal value of the digits: the digit characters have the values 0
  to 9, and a further digit multiplies what was read by ten.
\<close>

lemma digit_value_digits: "map digit_value ''0123456789'' = [0, 1, 2, 3, 4, 5, 6, 7, 8, 9]"
  by (simp add: digit_value_def)

lemma int_of_digits_Nil: "int_of_digits [] = 0"
  by (simp add: int_of_digits_def)

lemma int_of_digits_snoc: "int_of_digits (ds @ [c]) = 10 * int_of_digits ds + digit_value c"
  by (simp add: int_of_digits_def)

text \<open>
  C3. The claim is for every file name with a digit run, whatever else the folder holds.
  \<^verbatim>\<open>frame_010.png\<close> has the last digit run \<^verbatim>\<open>010\<close> at the positions 6 to 9; its
  mask is \<^verbatim>\<open>frame_#.png\<close> and its frame 10, and alone in the folder it is grouped so.
  With \<^verbatim>\<open>notes.txt\<close>, a name without a digit, in the same folder the discovery raises
  \<open>AttributeError\<close> at line 98 and returns no dictionary: \<^verbatim>\<open>frame_010.png\<close> is
  assigned to no group.
\<close>

theorem digit_file_is_not_grouped:
  "search ''frame_010.png'' = Some (6, 9) \<and>
   schema_of ''frame_010.png'' (6, 9) = ''frame_#.png'' \<and>
   group1 ''frame_010.png'' (6, 9) = ''010'' \<and>
   int_of_digits ''010'' = 10 \<and>
   discover_image_sequences_in_folder (renders_fs [''frame_010.png'']) ''renders''
     = Inr [(''frame_#.png'', [(10, ''frame_010.png'')])] \<and>
   discover_image_sequences_in_folder (renders_fs [''notes.txt'', ''frame_010.png'']) ''renders''
     = Inl AttributeError"
  by code_simp

text \<open>
  C9. Two listings of the same files in different orders either both raise the same
  exception, or both return, with the same set of keys and, for every key, the same set
  of \<open>(frame, file)\<close> members.
\<close>

theorem discover_order_independent:
  assumes "fs (strip path) = Some files" and "fs' (strip path) = Some files'"
    and "mset files = mset files'"
  shows "(\<forall>e. discover_image_sequences_in_folder fs path = Inl e \<longrightarrow>
            discover_image_sequences_in_folder fs' path = Inl e) \<and>
         (\<forall>g. discover_image_sequences_in_folder fs path = Inr g \<longrightarrow>
            (\<exists>g'. discover_image_sequences_in_folder fs' path = Inr g' \<and>
                  fst ` set g = fst ` set g' \<and>
                  (\<forall>schema. set (members_of g schema) = set (members_of g' schema))))"
proof -
  have s: "set files = set files'" using assms(3) by (rule mset_eq_setD)
  have d: "discover_image_sequences_in_folder fs path = discover_files files []"
    using assms(1) by (simp add: discover_image_sequences_in_folder_def)
  have d': "discover_image_sequences_in_folder fs' path = discover_files files' []"
    using assms(2) by (simp add: discover_image_sequences_in_folder_def)
  have 1: "discover_files files' [] = Inl e" if e: "discover_files files [] = Inl e" for e
  proof -
    have n: "\<exists>f\<in>set files. \<forall>c\<in>set f. \<not> is_digit c"
    proof (rule ccontr)
      assume "\<not> ?thesis"
      then have "\<forall>f\<in>set files. \<exists>c\<in>set f. is_digit c" by blast
      from discover_files_returns[OF this, of "[]"] show False using e by auto
    qed
    then have "e = AttributeError" using discover_files_raises[of files "[]"] e by simp
    moreover have "discover_files files' [] = Inl AttributeError"
      using n s discover_files_raises[of files' "[]"] by simp
    ultimately show ?thesis by simp
  qed
  have 2: "\<exists>g'. discover_files files' [] = Inr g' \<and> fst ` set g = fst ` set g' \<and>
                  (\<forall>schema. set (members_of g schema) = set (members_of g' schema))"
    if g: "discover_files files [] = Inr g" for g
  proof -
    note G = discover_files_groups[OF g]
    have "\<forall>f\<in>set files'. \<exists>c\<in>set f. is_digit c" using G s by simp
    then obtain g' where g': "discover_files files' [] = Inr g'"
      using discover_files_returns by blast
    note G' = discover_files_groups[OF g']
    have k: "fst ` set g = fst ` set g'" using G G' s by simp
    have "set (members_of g k) = set (members_of g' k)" for k
      using G G' s by (simp add: members_of_def)
    then show ?thesis using g' k by blast
  qed
  show ?thesis unfolding d d' using 1 2 by blast
qed

text \<open>The theorem at two listings of three files.\<close>

theorem discover_order_independent_witness:
  "\<exists>g'. discover_image_sequences_in_folder (renders_fs [''a3.png'', ''a1.png'', ''b2.png'']) ''renders'' = Inr g' \<and>
     fst ` set [(''a#.png'', [(1::int, ''a1.png''), (3, ''a3.png'')]), (''b#.png'', [(2, ''b2.png'')])] = fst ` set g' \<and>
     (\<forall>schema. set (members_of [(''a#.png'', [(1, ''a1.png''), (3, ''a3.png'')]), (''b#.png'', [(2, ''b2.png'')])] schema)
         = set (members_of g' schema))"
proof -
  let ?files = "[''a1.png'', ''b2.png'', ''a3.png'']"
  let ?files' = "[''a3.png'', ''a1.png'', ''b2.png'']"
  have h1: "renders_fs ?files (strip ''renders'') = Some ?files"
    by (simp add: strip_renders renders_fs_def)
  have h2: "renders_fs ?files' (strip ''renders'') = Some ?files'"
    by (simp add: strip_renders renders_fs_def)
  have h3: "mset ?files = mset ?files'"
    by simp
  have e: "discover_image_sequences_in_folder (renders_fs ?files) ''renders''
      = Inr [(''a#.png'', [(1, ''a1.png''), (3, ''a3.png'')]), (''b#.png'', [(2, ''b2.png'')])]"
    by code_simp
  note t = discover_order_independent
         [of "renders_fs ?files" "''renders''" ?files "renders_fs ?files'" ?files', OF h1 h2 h3]
  show ?thesis by (rule mp[OF spec[OF conjunct2[OF t]] e])
qed

subsection \<open>The cache\<close>

text \<open>
  C8. A call with the cached path and a clear dirty flag returns the cached dictionary
  and leaves the cache alone, whatever the file system holds. Any other call returns what
  the discovery returns; when that is a dictionary, the cache then holds it under the
  given path with the flag cleared, so that the same path is answered from the cache and
  any other path is scanned again. When the discovery raises, the cache is unchanged.
\<close>

theorem get_image_sequences_single_slot_cache:
  assumes "get_image_sequences_in_folder fs path st = (r, st')"
  shows "(cached_image_sequences_path st = Some path \<and> \<not> cached_image_sequences_dirty st \<longrightarrow>
            r = Inr (cached_image_sequences st) \<and> st' = st \<and>
            (\<forall>fs'. get_image_sequences_in_folder fs' path st = (r, st'))) \<and>
         (cached_image_sequences_path st \<noteq> Some path \<or> cached_image_sequences_dirty st \<longrightarrow>
            r = discover_image_sequences_in_folder fs path \<and>
            (\<forall>found. r = Inr found \<longrightarrow>
               st' = \<lparr>cached_image_sequences = found, cached_image_sequences_path = Some path,
                      cached_image_sequences_dirty = False\<rparr> \<and>
               (\<forall>fs'. get_image_sequences_in_folder fs' path st' = (Inr found, st')) \<and>
               (\<forall>fs' p. p \<noteq> path \<longrightarrow>
                  fst (get_image_sequences_in_folder fs' p st') =
                    discover_image_sequences_in_folder fs' p)) \<and>
            (\<forall>e. r = Inl e \<longrightarrow> st' = st))"
proof (cases "cached_image_sequences_path st = Some path \<and> \<not> cached_image_sequences_dirty st")
  case True
  then show ?thesis using assms by (auto simp: get_image_sequences_in_folder_def)
next
  case False
  show ?thesis
  proof (cases "discover_image_sequences_in_folder fs path")
    case (Inl e)
    then show ?thesis using assms False
      by (auto simp: get_image_sequences_in_folder_def)
  next
    case (Inr found)
    then show ?thesis using assms False
      by (auto simp: get_image_sequences_in_folder_def split: sum.splits)
  qed
qed

text \<open>The theorem at the first call, on the initial cache.\<close>

theorem get_image_sequences_single_slot_cache_witness:
  "get_image_sequences_in_folder (renders_fs [''a1.png'']) ''renders'' initial_cache
     = (Inr [(''a#.png'', [(1, ''a1.png'')])],
        \<lparr>cached_image_sequences = [(''a#.png'', [(1, ''a1.png'')])],
         cached_image_sequences_path = Some ''renders'', cached_image_sequences_dirty = False\<rparr>) \<and>
   (\<forall>fs'. get_image_sequences_in_folder fs' ''renders''
        \<lparr>cached_image_sequences = [(''a#.png'', [(1, ''a1.png'')])],
         cached_image_sequences_path = Some ''renders'', cached_image_sequences_dirty = False\<rparr>
      = (Inr [(''a#.png'', [(1, ''a1.png'')])],
        \<lparr>cached_image_sequences = [(''a#.png'', [(1, ''a1.png'')])],
         cached_image_sequences_path = Some ''renders'', cached_image_sequences_dirty = False\<rparr>))"
proof -
  let ?found = "[(''a#.png'', [(1::int, ''a1.png'')])]"
  let ?st = "\<lparr>cached_image_sequences = ?found,
         cached_image_sequences_path = Some ''renders'', cached_image_sequences_dirty = False\<rparr>"
  have h: "get_image_sequences_in_folder (renders_fs [''a1.png'']) ''renders'' initial_cache
     = (Inr ?found, ?st)"
    by code_simp
  have p: "cached_image_sequences_path initial_cache \<noteq> Some ''renders'' \<or>
           cached_image_sequences_dirty initial_cache"
    by (simp add: initial_cache_def)
  note t = mp[OF conjunct2[OF get_image_sequences_single_slot_cache[OF h]] p]
  note u = mp[OF spec[OF conjunct1[OF conjunct2[OF t]], of ?found] refl]
  show ?thesis by (rule conjI[OF h conjunct1[OF conjunct2[OF u]]])
qed

section \<open>Properties of the compositing\<close>

subsection \<open>Layout\<close>

lemma floor_div: "\<lfloor>real_of_int i / real_of_int c\<rfloor> = i div c"
  by (rule floor_divide_of_int_eq)

lemma ceil_div: "\<lceil>real_of_int n / real_of_int c\<rceil> = - ((- n) div c)"
  by (simp add: ceiling_def floor_div[symmetric] del: floor_divide_of_int_eq)

lemma Max_insert_max:
  fixes a b :: int
  shows "finite S \<Longrightarrow> Max (insert (max a b) S) = Max (insert a (insert b S))"
  by (cases "S = {}") (simp_all add: max.assoc)

lemma foldl_max_size:
  "foldl (\<lambda>m img.
        (if fst (img_size img) > fst m then fst (img_size img) else fst m,
         if snd (img_size img) > snd m then snd (img_size img) else snd m)) m images
   = (Max (insert (fst m) (fst ` img_size ` set images)),
      Max (insert (snd m) (snd ` img_size ` set images)))"
proof (induction images arbitrary: m)
  case Nil
  then show ?case by simp
next
  case (Cons img images)
  have 1: "(if fst (img_size img) > fst m then fst (img_size img) else fst m)
             = max (fst m) (fst (img_size img))" by (simp add: max_def)
  have 2: "(if snd (img_size img) > snd m then snd (img_size img) else snd m)
             = max (snd m) (snd (img_size img))" by (simp add: max_def)
  have 3: "Max (insert (max (fst m) (fst (img_size img))) (fst ` img_size ` set images))
         = Max (insert (fst m) (fst ` img_size ` set (img # images)))"
    using Max_insert_max[of "fst ` img_size ` set images" "fst m" "fst (img_size img)"] by simp
  have 4: "Max (insert (max (snd m) (snd (img_size img))) (snd ` img_size ` set images))
         = Max (insert (snd m) (snd ` img_size ` set (img # images)))"
    using Max_insert_max[of "snd ` img_size ` set images" "snd m" "snd (img_size img)"] by simp
  show ?case
    unfolding foldl_Cons Cons.IH 1 2 fst_conv snd_conv 3 4 ..
qed

lemma max_size_eq:
  assumes "images \<noteq> []" and "\<forall>img\<in>set images. 0 \<le> fst (img_size img) \<and> 0 \<le> snd (img_size img)"
  shows "max_size images = (Max (fst ` img_size ` set images), Max (snd ` img_size ` set images))"
proof -
  obtain img where img: "img \<in> set images" using assms(1) by (cases images) auto
  have 1: "Max (insert 0 (fst ` img_size ` set images)) = Max (fst ` img_size ` set images)"
  proof (rule antisym)
    have "0 \<le> fst (img_size img)" using assms(2) img by blast
    also have "\<dots> \<le> Max (fst ` img_size ` set images)" using img by (intro Max_ge) auto
    finally show "Max (insert 0 (fst ` img_size ` set images)) \<le> Max (fst ` img_size ` set images)"
      using img by (intro Max.boundedI) auto
    show "Max (fst ` img_size ` set images) \<le> Max (insert 0 (fst ` img_size ` set images))"
      using img by (intro Max_mono) auto
  qed
  have 2: "Max (insert 0 (snd ` img_size ` set images)) = Max (snd ` img_size ` set images)"
  proof (rule antisym)
    have "0 \<le> snd (img_size img)" using assms(2) img by blast
    also have "\<dots> \<le> Max (snd ` img_size ` set images)" using img by (intro Max_ge) auto
    finally show "Max (insert 0 (snd ` img_size ` set images)) \<le> Max (snd ` img_size ` set images)"
      using img by (intro Max.boundedI) auto
    show "Max (snd ` img_size ` set images) \<le> Max (insert 0 (snd ` img_size ` set images))"
      using img by (intro Max_mono) auto
  qed
  show ?thesis unfolding max_size_def foldl_max_size using 1 2 by simp
qed

text \<open>
  C4. For a non-empty list of images (of non-negative sizes) and at least one column the
  operator computes a tile map whose width is the largest source width times the column
  count and whose height is the largest source height times
  \<open>\<lceil>n / column_count\<rceil>\<close>.
\<close>

theorem atlas_size:
  assumes "images \<noteq> []" and "1 \<le> column_count"
    and "\<forall>img\<in>set images. 0 \<le> fst (img_size img) \<and> 0 \<le> snd (img_size img)"
  shows "\<exists>out. generate_texture_atlas images column_count order = Inr out \<and>
           fst (img_size out) = Max (fst ` img_size ` set images) * column_count \<and>
           snd (img_size out) =
             Max (snd ` img_size ` set images) * \<lceil>real (length images) / real_of_int column_count\<rceil>"
  using assms(2) max_size_eq[OF assms(1,3)]
  by (simp add: generate_texture_atlas_def row_count_get_def prop_read_def compose_def Let_def)

text \<open>The size theorem at the two example tiles.\<close>

theorem atlas_size_witness:
  "\<exists>out. generate_texture_atlas [tile_a, tile_b] 2 top_to_bottom = Inr out \<and>
      fst (img_size out) = 4 \<and> snd (img_size out) = 1"
proof -
  have h1: "[tile_a, tile_b] \<noteq> []" by simp
  have h3: "\<forall>img\<in>set [tile_a, tile_b]. 0 \<le> fst (img_size img) \<and> 0 \<le> snd (img_size img)"
    by (simp add: tile_a_def tile_b_def)
  from atlas_size[of "[tile_a, tile_b]" 2 top_to_bottom, OF h1 _ h3]
  show ?thesis by (simp add: tile_a_def tile_b_def)
qed

lemma floor_lt_ceiling:
  assumes "1 \<le> c" and "i < n"
  shows "\<lfloor>real_of_int i / real_of_int c\<rfloor> < \<lceil>real_of_int n / real_of_int c\<rceil>"
proof -
  have c: "0 < real_of_int c" using assms(1) by simp
  have "real_of_int i / real_of_int c < real_of_int n / real_of_int c"
    using assms(2) c by (simp add: divide_strict_right_mono)
  then have "real_of_int \<lfloor>real_of_int i / real_of_int c\<rfloor> < real_of_int \<lceil>real_of_int n / real_of_int c\<rceil>"
    using of_int_floor_le[of "real_of_int i / real_of_int c"]
      le_of_int_ceiling[of "real_of_int n / real_of_int c"] by linarith
  then show ?thesis by simp
qed

lemma row_index_div:
  "row_index rc c order i = (if order = top_to_bottom then rc - 1 - i div c else i div c)"
  by (simp add: row_index_def floor_divide_of_int_eq)

lemma row_index_bounds:
  assumes "1 \<le> c" and "0 \<le> i" and "i < n" and "row_count_get n c = Inr rc"
  shows "0 \<le> row_index rc c order i \<and> row_index rc c order i < rc"
proof -
  have rc: "rc = \<lceil>real_of_int n / real_of_int c\<rceil>"
    using assms(1,4) by (simp add: row_count_get_def split: if_splits)
  have 1: "i div c < rc" using floor_lt_ceiling[OF assms(1,3)] rc
    by (simp add: floor_divide_of_int_eq)
  have 2: "0 \<le> i div c" using assms(1,2) by (simp add: pos_imp_zdiv_nonneg_iff)
  show ?thesis using 1 2 by (cases order) (simp_all add: row_index_div)
qed

lemma cell_inj:
  assumes "1 \<le> c" and "row_index rc c order j = row_index rc c order i"
    and "column_index c j = column_index c i"
  shows "j = i"
proof -
  have d: "j div c = i div c" using assms(2) by (cases order) (simp_all add: row_index_div)
  have m: "j mod c = i mod c" using assms(3) by (simp add: column_index_def)
  have "j = j div c * c + j mod c" by simp
  also have "\<dots> = i div c * c + i mod c" unfolding d m ..
  finally show ?thesis by simp
qed

text \<open>
  The indices of lines 333 and 334, as numbers: for an image index \<open>i\<close> below the
  image count, the row index is
  \<open>row_count - 1 - i div column_count\<close> for \<open>top_to_bottom\<close> and \<open>i div column_count\<close>
  for \<open>bottom_to_top\<close>, the column index is \<open>i mod column_count\<close>; both lie inside
  the grid, and no other index has the same pair. Where the loop writes the pixels of
  the tile is a different matter, shown after this lemma.
\<close>

lemma cell_placement:
  assumes "1 \<le> column_count" and "0 \<le> i" and "i < image_count"
    and "row_count_get image_count column_count = Inr row_count"
  shows "row_index row_count column_count top_to_bottom i = row_count - 1 - i div column_count \<and>
         row_index row_count column_count bottom_to_top i = i div column_count \<and>
         column_index column_count i = i mod column_count \<and>
         0 \<le> row_index row_count column_count order i \<and>
         row_index row_count column_count order i < row_count \<and>
         0 \<le> column_index column_count i \<and> column_index column_count i < column_count \<and>
         row_index row_count column_count top_to_bottom 0 = row_count - 1 \<and>
         row_index row_count column_count bottom_to_top 0 = 0 \<and>
         column_index column_count 0 = 0 \<and>
         (\<forall>j. row_index row_count column_count order j = row_index row_count column_count order i \<and>
              column_index column_count j = column_index column_count i \<longrightarrow> j = i)"
proof -
  have 1: "0 \<le> row_index row_count column_count order i \<and>
         row_index row_count column_count order i < row_count"
    by (rule row_index_bounds[OF assms])
  have 2: "0 \<le> column_index column_count i \<and> column_index column_count i < column_count"
    using assms(1) by (simp add: column_index_def)
  have 3: "\<forall>j. row_index row_count column_count order j = row_index row_count column_count order i \<and>
              column_index column_count j = column_index column_count i \<longrightarrow> j = i"
    using cell_inj[OF assms(1)] by blast
  show ?thesis using 1 2 3 by (simp add: row_index_div column_index_def)
qed

text \<open>
  C1. The offsets of the destination line are computed from the size of the tile, not
  from the size of the cell. With a 2x1 tile followed by a 1x1 tile in two columns the
  second tile is written at pixel column \<open>1 * 1\<close>, over the second pixel of the first
  tile; the cell of the second tile, which starts at pixel column \<open>1 * 2\<close>, stays
  background.
\<close>

theorem smaller_tile_is_misplaced:
  "generate_texture_atlas [tile_a, tile_b] 2 top_to_bottom
   = Inr \<lparr>img_size = (4, 1), pixels = [1, 1, 1, 1, 3, 3, 3, 1, 0, 0, 0, 1, 0, 0, 0, 1]\<rparr>"
  by code_simp

text \<open>
  C5. The rows are offset by the height of the tile in the same way. A 1x1 tile followed
  by a 1x2 tile in one column, top to bottom: the cells are 1x2, and image index 0 has
  row index 1, the top cell, which is the pixel rows 2 and 3 of the tile map. Its pixel
  is written to pixel row \<open>1 * 1\<close>, inside the bottom cell (the tile map after the
  first round of the loop), and the second tile then overwrites it. In the tile map the
  top cell is background and the first image is in no cell.
\<close>

theorem first_tile_is_not_in_top_cell:
  "row_count_get 2 1 = Inr 2 \<and>
   row_index 2 1 top_to_bottom 0 = 1 \<and> column_index 1 0 = 0 \<and>
   max_size [tile_b, tile_c] = (1, 2) \<and>
   pixels tile_b = [3, 3, 3, 1] \<and>
   tilemap_after 1 [tile_b, tile_c] 2 1 top_to_bottom
     = [0, 0, 0, 1, 3, 3, 3, 1, 0, 0, 0, 1, 0, 0, 0, 1] \<and>
   generate_texture_atlas [tile_b, tile_c] 1 top_to_bottom
     = Inr \<lparr>img_size = (1, 4), pixels = [4, 4, 4, 1, 5, 5, 5, 1, 0, 0, 0, 1, 0, 0, 0, 1]\<rparr> \<and>
   pixel \<lparr>img_size = (1, 4), pixels = [4, 4, 4, 1, 5, 5, 5, 1, 0, 0, 0, 1, 0, 0, 0, 1]\<rparr> 0 2
     = [0, 0, 0, 1] \<and>
   pixel \<lparr>img_size = (1, 4), pixels = [4, 4, 4, 1, 5, 5, 5, 1, 0, 0, 0, 1, 0, 0, 0, 1]\<rparr> 0 3
     = [0, 0, 0, 1]"
  by code_simp

subsection \<open>The operator\<close>

lemma groups_nonempty_dict_add:
  "groups_nonempty d \<Longrightarrow> groups_nonempty (dict_add k v d)"
  unfolding groups_nonempty_def
  by (induction k v d rule: dict_add.induct) auto

lemma groups_nonempty_discover_files:
  "groups_nonempty d \<Longrightarrow> discover_files files d = Inr g \<Longrightarrow> groups_nonempty g"
proof (induction files arbitrary: d)
  case Nil
  then show ?case by simp
next
  case (Cons f files)
  from Cons.prems(2) obtain m where m: "search f = Some m" by (cases "search f") auto
  show ?case
    using Cons.IH[OF groups_nonempty_dict_add[OF Cons.prems(1)]] Cons.prems(2) m by simp
qed

lemma groups_nonempty_discover:
  "discover_image_sequences_in_folder fs path = Inr g \<Longrightarrow> groups_nonempty g"
  unfolding discover_image_sequences_in_folder_def
  using groups_nonempty_discover_files[of "[]" _ g]
  by (auto simp: groups_nonempty_def split: option.splits)

lemma groups_nonempty_get:
  assumes "groups_nonempty (cached_image_sequences st)"
    and "get_image_sequences_in_folder fs path st = (r, st')"
  shows "groups_nonempty (cached_image_sequences st') \<and> (\<forall>d. r = Inr d \<longrightarrow> groups_nonempty d)"
  using assms groups_nonempty_discover[of fs path]
  by (auto simp: get_image_sequences_in_folder_def split: if_splits sum.splits)

lemma get_again:
  "get_image_sequences_in_folder fs path st = (Inr d, st') \<Longrightarrow>
   get_image_sequences_in_folder fs' path st' = (Inr d, st')"
  by (auto simp: get_image_sequences_in_folder_def split: if_splits sum.splits)

lemma load_images_length:
  "load_images load folder files = Inr images \<Longrightarrow> length images = length files"
  by (induction files arbitrary: images) (auto split: option.splits sum.splits)

lemma discover_files_error: "discover_files files d = Inl e \<Longrightarrow> e = AttributeError"
proof (induction files arbitrary: d)
  case Nil
  then show ?case by simp
next
  case (Cons f files)
  show ?case
  proof (cases "search f")
    case None
    then show ?thesis using Cons.prems by simp
  next
    case (Some m)
    then show ?thesis using Cons.prems Cons.IH by simp
  qed
qed

lemma get_error:
  "get_image_sequences_in_folder fs path st = (Inl e, st') \<Longrightarrow> e = AttributeError \<and> st' = st"
  using discover_files_error
  by (auto simp: get_image_sequences_in_folder_def discover_image_sequences_in_folder_def
           split: if_splits sum.splits option.splits)

lemma props_image_count_eq:
  "props_image_count fs p st =
     (case get_image_sequences_in_folder fs (props_path p) st of
        (Inl e, st') \<Rightarrow> (0, st')
      | (Inr d, st') \<Rightarrow> (int (length (members_of d (props_sequence p))), st'))"
  by (simp add: props_image_count_def image_count_get_def prop_read_def members_of_def
           split: prod.splits sum.splits option.splits)

lemma props_row_count_again:
  assumes "get_image_sequences_in_folder fs (props_path p) st = (Inr d, st1)"
  shows "props_row_count fs p st1 =
           (prop_read (row_count_get (int (length (members_of d (props_sequence p))))
              (props_column_count p)), st1)"
  using get_again[OF assms, of fs]
  by (simp add: props_row_count_def props_image_count_eq)

lemma loaded_files_all:
  "load_images load folder files = Inr images \<Longrightarrow> loaded_files load folder files = files"
  by (induction files arbitrary: images)
     (auto simp: loaded_files_def split: option.splits sum.splits)

lemma execute_selected:
  assumes g: "get_image_sequences_in_folder fs (props_path p) st = (Inr d, st1)"
    and ms: "map_of d (props_sequence p) = Some members"
  shows "execute fs load p st =
     (case load_images load (props_path p) (map snd (sort_key snd members)) of
        Inl e \<Rightarrow> (Inl e, st1,
           map Image_Load (loaded_files load (props_path p) (map snd (sort_key snd members))))
      | Inr images \<Rightarrow>
          (fst (create_tilemap images
                  (prop_read (row_count_get (int (length members)) (props_column_count p)))
                  (props_column_count p) (props_row_order p)),
           st1,
           map Image_Load (map snd (sort_key snd members)) @
           snd (create_tilemap images
                  (prop_read (row_count_get (int (length members)) (props_column_count p)))
                  (props_column_count p) (props_row_order p))))"
proof -
  have m: "members_of d (props_sequence p) = members" using ms by (simp add: members_of_def)
  show ?thesis
    using loaded_files_all[of load "props_path p" "map snd (sort_key snd members)"]
    by (simp add: execute_def g ms props_row_count_again[OF g] m Let_def
             split: sum.splits prod.splits)
qed

lemma create_tilemap_calls:
  "snd (create_tilemap images row_count column_count order) \<noteq> []"
  by (simp add: create_tilemap_def Let_def split: sum.splits)

lemma execute_composes:
  assumes "execute fs load p st = (Inr (), st', events)"
  shows "\<exists>d members images out.
           get_image_sequences_in_folder fs (props_path p) st = (Inr d, st') \<and>
           map_of d (props_sequence p) = Some members \<and>
           load_images load (props_path p) (map snd (sort_key snd members)) = Inr images \<and>
           length images = length members \<and>
           generate_texture_atlas images (props_column_count p) (props_row_order p) = Inr out \<and>
           int (length (pixels out))
             = fst (images_new (img_size out)) * snd (images_new (img_size out)) * 4 \<and>
           events = map Image_Load (map snd (sort_key snd members)) @
                    [Image_New (images_new (img_size out)), Pixels_Assign (pixels out)]"
proof -
  obtain r1 st1 where g: "get_image_sequences_in_folder fs (props_path p) st = (r1, st1)"
    by (cases "get_image_sequences_in_folder fs (props_path p) st")
  obtain d where d: "r1 = Inr d" using assms g by (cases r1) (simp_all add: execute_def)
  note g' = g[unfolded d]
  obtain members where ms: "map_of d (props_sequence p) = Some members"
    using assms g' by (cases "map_of d (props_sequence p)") (simp_all add: execute_def)
  note sel = execute_selected[OF g' ms, of load]
  let ?files = "map snd (sort_key snd members)"
  obtain images where im: "load_images load (props_path p) ?files = Inr images"
    using assms sel by (cases "load_images load (props_path p) ?files") simp_all
  have len: "length images = length members" using load_images_length[OF im] by simp
  let ?cc = "props_column_count p"
  let ?rc = "prop_read (row_count_get (int (length images)) ?cc)"
  let ?out = "compose images ?rc ?cc (props_row_order p)"
  obtain cr calls where ct: "create_tilemap images ?rc ?cc (props_row_order p) = (cr, calls)"
    by (cases "create_tilemap images ?rc ?cc (props_row_order p)")
  have x: "cr = Inr ()" "st' = st1" "events = map Image_Load ?files @ calls"
    using assms sel im ct by (simp_all add: len)
  have nz: "\<not> (?cc = 0 \<and> images \<noteq> [])"
  proof
    assume a: "?cc = 0 \<and> images \<noteq> []"
    have "create_tilemap images ?rc ?cc (props_row_order p)
          = (Inl ZeroDivisionError,
             [Image_New (images_new (fst (max_size images) * ?cc, snd (max_size images) * ?rc))])"
      unfolding create_tilemap_def Let_def using a by (simp only: if_True simp_thms)
    then show False using ct x(1) by simp
  qed
  have asg: "assign_pixels (images_new (img_size ?out)) (pixels ?out) = Inr ()"
    using ct x(1) nz by (auto simp: create_tilemap_def Let_def compose_def split: sum.splits)
  have calls: "calls = [Image_New (images_new (img_size ?out)), Pixels_Assign (pixels ?out)]"
    using ct x(1) nz by (auto simp: create_tilemap_def Let_def compose_def split: sum.splits)
  have l: "int (length (pixels ?out))
             = fst (images_new (img_size ?out)) * snd (images_new (img_size ?out)) * 4"
    using asg by (simp add: assign_pixels_def split: if_splits)
  have gen: "generate_texture_atlas images ?cc (props_row_order p) = Inr ?out"
    using nz by (simp add: generate_texture_atlas_def Let_def)
  show ?thesis
    using g' ms im len gen l x(2) x(3)[unfolded calls] by blast
qed

lemma groups_nonempty_initial: "groups_nonempty (cached_image_sequences initial_cache)"
  by (simp add: initial_cache_def groups_nonempty_def)

text \<open>
  C7. The sequence that the operator composes is the group of the selected name, and
  its image count is the property \<^verbatim>\<open>image_count\<close>: the length of that group, or 0
  when the selected name is no key of the dictionary or the discovery raises. The
  dictionaries of the cache have no empty group, since the discovery makes a group only
  together with its first member. On such a cache a run of the operator with the image
  count 0 ends with an exception, the \<open>KeyError\<close> of the lookup of line 294 or the
  \<open>AttributeError\<close> of the discovery at line 292, and has made no call before it:
  no image is loaded, no data block is made and no pixels are assigned. Whenever a
  data block is made, the image count is the length of the selected group, which has
  a member; the images that were loaded are those of its files, and the calls are the
  loads of these files followed by the calls of \<open>create_tilemap\<close> for these images.
  The code has no test of its own for an empty sequence: the rejection is the exception
  of the lookup.
\<close>

theorem empty_sequence_is_rejected:
  assumes inv: "groups_nonempty (cached_image_sequences st)"
    and ex: "execute fs load p st = (r, st', events)"
  shows "groups_nonempty (cached_image_sequences st') \<and>
         (fst (props_image_count fs p st) = 0 \<longrightarrow>
            (r = Inl KeyError \<or> r = Inl AttributeError) \<and> events = []) \<and>
         (\<forall>size. Image_New size \<in> set events \<longrightarrow>
            (\<exists>d members images.
               fst (get_image_sequences_in_folder fs (props_path p) st) = Inr d \<and>
               map_of d (props_sequence p) = Some members \<and> members \<noteq> [] \<and>
               fst (props_image_count fs p st) = int (length members) \<and>
               load_images load (props_path p) (map snd (sort_key snd members)) = Inr images \<and>
               length images = length members \<and>
               events = map Image_Load (map snd (sort_key snd members)) @
                 snd (create_tilemap images
                        (prop_read (row_count_get (int (length images)) (props_column_count p)))
                        (props_column_count p) (props_row_order p))))"
proof -
  obtain r1 st1 where g: "get_image_sequences_in_folder fs (props_path p) st = (r1, st1)"
    by (cases "get_image_sequences_in_folder fs (props_path p) st")
  note i = groups_nonempty_get[OF inv g]
  show ?thesis
  proof (cases r1)
    case (Inl e)
    have e: "e = AttributeError" using get_error g Inl by blast
    have x: "r = Inl AttributeError" "st' = st1" "events = []"
      using ex g Inl e by (simp_all add: execute_def)
    show ?thesis using i x by simp
  next
    case (Inr d)
    note g' = g[unfolded Inr]
    have gd: "groups_nonempty d" using i Inr by simp
    show ?thesis
    proof (cases "map_of d (props_sequence p)")
      case None
      have x: "r = Inl KeyError" "st' = st1" "events = []"
        using ex g' None by (simp_all add: execute_def)
      show ?thesis using i x by simp
    next
      case (Some members)
      have "(props_sequence p, members) \<in> set d" using Some by (rule map_of_SomeD)
      then have ne: "members \<noteq> []" using gd unfolding groups_nonempty_def by blast
      have c: "fst (props_image_count fs p st) = int (length members)"
        by (simp add: props_image_count_eq g' members_of_def Some)
      have c0: "fst (props_image_count fs p st) \<noteq> 0" using c ne by simp
      note sel = execute_selected[OF g' Some, of load]
      let ?files = "map snd (sort_key snd members)"
      show ?thesis
      proof (cases "load_images load (props_path p) ?files")
        case (Inl e)
        have x: "st' = st1" "events = map Image_Load (loaded_files load (props_path p) ?files)"
          using ex sel Inl by simp_all
        have "\<forall>size. Image_New size \<notin> set events" unfolding x by auto
        then show ?thesis using i x(1) c0 by simp
      next
        case (Inr images)
        have len: "length images = length members" using load_images_length[OF Inr] by simp
        have x: "st' = st1" using ex sel Inr by simp
        have ev: "events = map Image_Load (map snd (sort_key snd members)) @
                 snd (create_tilemap images
                        (prop_read (row_count_get (int (length images)) (props_column_count p)))
                        (props_column_count p) (props_row_order p))"
          using ex sel Inr by (simp add: len)
        have "\<exists>d members images.
               fst (get_image_sequences_in_folder fs (props_path p) st) = Inr d \<and>
               map_of d (props_sequence p) = Some members \<and> members \<noteq> [] \<and>
               fst (props_image_count fs p st) = int (length members) \<and>
               load_images load (props_path p) (map snd (sort_key snd members)) = Inr images \<and>
               length images = length members \<and>
               events = map Image_Load (map snd (sort_key snd members)) @
                 snd (create_tilemap images
                        (prop_read (row_count_get (int (length images)) (props_column_count p)))
                        (props_column_count p) (props_row_order p))"
          using g' Some ne c Inr len ev by auto
        then show ?thesis using i x c0 by simp
      qed
    qed
  qed
qed

text \<open>
  The theorem at a folder with the one file \<^verbatim>\<open>a1.png\<close>, on the initial cache: with a
  selected name that is no key of the dictionary, and with the name of the group of
  that file, where a data block is made.
\<close>

theorem empty_sequence_is_rejected_witness:
  "(fst (props_image_count (renders_fs [''a1.png''])
           (example_props\<lparr>props_sequence := ''b#.png''\<rparr>) initial_cache) = 0 \<and>
    fst (execute (renders_fs [''a1.png'']) example_loader
           (example_props\<lparr>props_sequence := ''b#.png''\<rparr>) initial_cache) = Inl KeyError \<and>
    snd (snd (execute (renders_fs [''a1.png'']) example_loader
           (example_props\<lparr>props_sequence := ''b#.png''\<rparr>) initial_cache)) = []) \<and>
   (\<exists>d members images.
      fst (get_image_sequences_in_folder (renders_fs [''a1.png'']) (props_path example_props)
             initial_cache) = Inr d \<and>
      map_of d (props_sequence example_props) = Some members \<and> members \<noteq> [] \<and>
      fst (props_image_count (renders_fs [''a1.png'']) example_props initial_cache)
        = int (length members) \<and>
      load_images example_loader (props_path example_props) (map snd (sort_key snd members))
        = Inr images \<and>
      length images = length members \<and>
      [Image_Load ''a1.png'', Image_New (2, 1), Pixels_Assign [1, 1, 1, 1, 2, 2, 2, 1]]
        = map Image_Load (map snd (sort_key snd members)) @
          snd (create_tilemap images
                 (prop_read (row_count_get (int (length images)) (props_column_count example_props)))
                 (props_column_count example_props) (props_row_order example_props)))"
proof -
  let ?p = "example_props\<lparr>props_sequence := ''b#.png''\<rparr>"
  let ?fs = "renders_fs [''a1.png'']"
  obtain r st' events where h: "execute ?fs example_loader ?p initial_cache = (r, st', events)"
    by (cases "execute ?fs example_loader ?p initial_cache")
  note t = empty_sequence_is_rejected[OF groups_nonempty_initial h]
  have c: "fst (props_image_count ?fs ?p initial_cache) = 0" by code_simp
  have u: "(r = Inl KeyError \<or> r = Inl AttributeError) \<and> events = []"
    by (rule mp[OF conjunct1[OF conjunct2[OF t]] c])
  have k: "fst (execute ?fs example_loader ?p initial_cache) \<noteq> Inl AttributeError" by code_simp
  have "r = Inl KeyError" using u k h by auto
  then have first: "fst (props_image_count ?fs ?p initial_cache) = 0 \<and>
    fst (execute ?fs example_loader ?p initial_cache) = Inl KeyError \<and>
    snd (snd (execute ?fs example_loader ?p initial_cache)) = []"
    using c u h by simp
  let ?events = "[Image_Load ''a1.png'', Image_New (2, 1), Pixels_Assign [1, 1, 1, 1, 2, 2, 2, 1]]"
  let ?st = "\<lparr>cached_image_sequences = [(''a#.png'', [(1::int, ''a1.png'')])],
         cached_image_sequences_path = Some ''renders'', cached_image_sequences_dirty = False\<rparr>"
  have h2: "execute ?fs example_loader example_props initial_cache = (Inr (), ?st, ?events)"
    by code_simp
  note t2 = empty_sequence_is_rejected[OF groups_nonempty_initial h2]
  have m: "Image_New (2, 1) \<in> set ?events" by simp
  note second = mp[OF spec[OF conjunct2[OF conjunct2[OF t2]], of "(2, 1)"] m]
  show ?thesis by (rule conjI[OF first second])
qed

text \<open>
  Three runs of the model. The one file of the folder is composed in one column. With
  \<open>column_count = 0\<close>, the value of the property before it is first set, the row
  count is read as 0, the file is loaded, a data block of 1 x 1 is made, and the
  division of line 333 raises. For no images at all, which no run of the operator
  reaches, lines 315 to 350 would make a data block of 1 x 1 and raise \<open>ValueError\<close>
  at the assignment of the empty list.
\<close>

lemma execute_example:
  "execute (renders_fs [''a1.png'']) example_loader example_props initial_cache
     = (Inr (),
        \<lparr>cached_image_sequences = [(''a#.png'', [(1, ''a1.png'')])],
         cached_image_sequences_path = Some ''renders'', cached_image_sequences_dirty = False\<rparr>,
        [Image_Load ''a1.png'', Image_New (2, 1), Pixels_Assign [1, 1, 1, 1, 2, 2, 2, 1]])"
  by code_simp

lemma execute_column_count_0:
  "execute (renders_fs [''a1.png'']) example_loader
     (example_props\<lparr>props_column_count := 0\<rparr>) initial_cache
     = (Inl ZeroDivisionError,
        \<lparr>cached_image_sequences = [(''a#.png'', [(1, ''a1.png'')])],
         cached_image_sequences_path = Some ''renders'', cached_image_sequences_dirty = False\<rparr>,
        [Image_Load ''a1.png'', Image_New (1, 1)])"
  by code_simp

lemma create_tilemap_nothing:
  "create_tilemap [] 0 1 top_to_bottom = (Inl ValueError, [Image_New (1, 1)])"
  by code_simp

subsection \<open>The compositing loop\<close>

lemma copy_line_eq:
  "copy_line tile ts r c buf y =
     py_slice_assign buf (line_start (img_size tile) ts r c y)
       (line_start (img_size tile) ts r c y + fst (img_size tile) * 4) (tile_line tile y)"
  by (simp add: copy_line_def line_start_def tile_line_def Let_def)

lemma slice_bound_inside: "0 \<le> i \<Longrightarrow> i \<le> int n \<Longrightarrow> slice_bound n i = nat i"
  by (simp add: slice_bound_def)

lemma py_slice_inside:
  assumes "0 \<le> i" "i \<le> j" "j \<le> int (length xs)"
  shows "py_slice xs i j = take (nat (j - i)) (drop (nat i) xs)"
    and "length (py_slice xs i j) = nat (j - i)"
proof -
  have a: "slice_bound (length xs) i = nat i" using assms by (simp add: slice_bound_inside)
  have b: "slice_bound (length xs) j = nat j" using assms by (simp add: slice_bound_inside)
  have c: "nat j - nat i = nat (j - i)" using assms by simp
  show 1: "py_slice xs i j = take (nat (j - i)) (drop (nat i) xs)"
    by (simp add: py_slice_def a b c Let_def)
  show "length (py_slice xs i j) = nat (j - i)" unfolding 1 using assms by simp
qed

lemma py_slice_assign_inside:
  assumes "0 \<le> i" "i \<le> j" "j \<le> int (length xs)" "length ys = nat (j - i)"
  shows "length (py_slice_assign xs i j ys) = length xs"
    and "p < length xs \<Longrightarrow> py_slice_assign xs i j ys ! p =
           (if nat i \<le> p \<and> p < nat j then ys ! (p - nat i) else xs ! p)"
proof -
  have a: "slice_bound (length xs) i = nat i" using assms by (simp add: slice_bound_inside)
  have b: "slice_bound (length xs) j = nat j" using assms by (simp add: slice_bound_inside)
  have m: "max (nat i) (nat j) = nat j" using assms by simp
  have e: "py_slice_assign xs i j ys = take (nat i) xs @ ys @ drop (nat j) xs"
    by (simp add: py_slice_assign_def a b m Let_def)
  have ni: "nat i \<le> length xs" "nat j \<le> length xs" "nat i \<le> nat j" using assms by simp_all
  have ly: "length ys = nat j - nat i" using assms by simp
  show "length (py_slice_assign xs i j ys) = length xs"
    unfolding e using ni ly by simp
  show "py_slice_assign xs i j ys ! p =
           (if nat i \<le> p \<and> p < nat j then ys ! (p - nat i) else xs ! p)" if "p < length xs"
  proof -
    consider "p < nat i" | "nat i \<le> p" "p < nat j" | "nat j \<le> p" by linarith
    then show ?thesis
    proof cases
      case 1
      then show ?thesis unfolding e using ni by (simp add: nth_append)
    next
      case 2
      then have "p - nat i < length ys" using ly by linarith
      then show ?thesis unfolding e using 2 ni by (simp add: nth_append)
    next
      case 3
      have a: "p - nat i - length ys = p - nat j" using 3 ni ly by arith
      have b: "\<not> p - nat i < length ys" using 3 ni ly by arith
      have c: "\<not> p < nat i" using 3 ni by arith
      have d: "nat j + (p - nat j) = p" using 3 by arith
      show ?thesis unfolding e using 3 ni that a b c d by (simp add: nth_append)
    qed
  qed
qed

lemma py_repeat_length: "length (py_repeat xs k) = nat k * length xs"
  by (induction "nat k" arbitrary: k) (simp_all add: py_repeat_def length_concat sum_list_replicate)

lemma py_repeat_twice:
  "py_repeat (py_repeat xs a) b = concat (replicate (nat b * nat a) xs)"
proof -
  have "concat (replicate m (concat (replicate n xs))) = concat (replicate (m * n) xs)" for m n
    by (induction m) (simp_all add: replicate_add)
  then show ?thesis by (simp add: py_repeat_def)
qed

lemma blank_pixels_eq:
  "blank_pixels ts = concat (replicate (nat (snd ts) * nat (fst ts)) [0, 0, 0, 1])"
  by (simp add: blank_pixels_def py_repeat_twice)

lemma blank_pixels_length:
  "0 \<le> fst ts \<Longrightarrow> 0 \<le> snd ts \<Longrightarrow> int (length (blank_pixels ts)) = fst ts * snd ts * 4"
  by (simp add: blank_pixels_eq length_concat sum_list_replicate nat_mult_distrib)

lemma concat_replicate_nth:
  "p < n * length xs \<Longrightarrow> concat (replicate n xs) ! p = xs ! (p mod length xs)"
proof (induction n arbitrary: p)
  case 0
  then show ?case by simp
next
  case (Suc n)
  show ?case
  proof (cases "p < length xs")
    case True
    then show ?thesis by (simp add: nth_append)
  next
    case False
    then have "p - length xs < n * length xs" using Suc.prems by simp
    from Suc.IH[OF this] show ?thesis using False
      by (simp add: nth_append le_mod_geq)
  qed
qed

lemma max_size_ge:
  "0 \<le> fst (max_size images)" "0 \<le> snd (max_size images)"
  "img \<in> set images \<Longrightarrow> fst (img_size img) \<le> fst (max_size images)"
  "img \<in> set images \<Longrightarrow> snd (img_size img) \<le> snd (max_size images)"
  unfolding max_size_def foldl_max_size by (simp_all add: Max_ge)

lemma line_inside:
  fixes ri ci y w h mw mh rc cc :: int
  assumes "0 \<le> ri" "ri < rc" "0 \<le> ci" "ci < cc" "0 \<le> y" "y < h" "0 \<le> w" "w \<le> mw" "h \<le> mh"
  shows "0 \<le> (ri * (mw * cc) * h + ci * w + y * (mw * cc)) * 4"
    and "(ri * (mw * cc) * h + ci * w + y * (mw * cc)) * 4 + w * 4 \<le> (mw * cc) * (mh * rc) * 4"
proof -
  let ?W = "mw * cc"
  have W: "0 \<le> ?W" using assms by simp
  have h: "0 \<le> h" using assms by simp
  show "0 \<le> (ri * ?W * h + ci * w + y * ?W) * 4" using assms W h by simp
  have col: "ci * w + w \<le> ?W"
  proof -
    have "(ci + 1) * w \<le> cc * mw" using assms by (intro mult_mono) simp_all
    then show ?thesis by (simp add: algebra_simps)
  qed
  have row: "ri * h + y + 1 \<le> mh * rc"
  proof -
    have "(ri + 1) * h \<le> rc * mh" using assms h by (intro mult_mono) simp_all
    moreover have "ri * h + y + 1 \<le> (ri + 1) * h" using assms by (simp add: algebra_simps)
    ultimately show ?thesis by (simp add: algebra_simps)
  qed
  have "(ri * h + y + 1) * ?W \<le> (mh * rc) * ?W" using row W by (rule mult_right_mono)
  moreover have "ri * ?W * h + ci * w + y * ?W + w \<le> (ri * h + y + 1) * ?W"
    using col by (simp add: algebra_simps)
  ultimately have "ri * ?W * h + ci * w + y * ?W + w \<le> ?W * (mh * rc)"
    by (simp add: mult.commute)
  then show "(ri * ?W * h + ci * w + y * ?W) * 4 + w * 4 \<le> ?W * (mh * rc) * 4" by simp
qed

lemma tile_line_length:
  assumes "valid_image tile" "0 \<le> y" "y < snd (img_size tile)"
  shows "int (length (tile_line tile y)) = fst (img_size tile) * 4"
proof -
  let ?w = "fst (img_size tile)" and ?h = "snd (img_size tile)"
  have w: "0 \<le> ?w" and len: "int (length (pixels tile)) = ?w * ?h * 4"
    using assms(1) by (simp_all add: valid_image_def)
  have 1: "0 \<le> y * ?w * 4" using assms(2) w by simp
  have 2: "y * ?w * 4 \<le> y * ?w * 4 + ?w * 4" using w by simp
  have "(y + 1) * ?w \<le> ?h * ?w" using assms(3) w by (intro mult_right_mono) simp_all
  then have 3: "y * ?w * 4 + ?w * 4 \<le> int (length (pixels tile))"
    unfolding len by (simp add: algebra_simps)
  show ?thesis unfolding tile_line_def py_slice_inside(2)[OF 1 2 3] using w by simp
qed

lemma copy_line_inside:
  assumes "valid_image tile" "0 \<le> y" "y < snd (img_size tile)"
    and "fst (img_size tile) \<le> mw" "snd (img_size tile) \<le> mh"
    and "0 \<le> ri" "ri < rc" "0 \<le> ci" "ci < cc"
    and "int (length buf) = (mw * cc) * (mh * rc) * 4"
  shows "0 \<le> line_start (img_size tile) (mw * cc, mh * rc) ri ci y"
    and "line_start (img_size tile) (mw * cc, mh * rc) ri ci y + fst (img_size tile) * 4
           \<le> (mw * cc) * (mh * rc) * 4"
    and "length (copy_line tile (mw * cc, mh * rc) ri ci buf y) = length buf"
proof -
  let ?w = "fst (img_size tile)" and ?h = "snd (img_size tile)"
  let ?x1 = "line_start (img_size tile) (mw * cc, mh * rc) ri ci y"
  have w: "0 \<le> ?w" using assms(1) by (simp add: valid_image_def)
  note li = line_inside[OF assms(6,7,8,9) assms(2,3) w assms(4,5)]
  show 1: "0 \<le> ?x1" using li(1) by (simp add: line_start_def)
  show 2: "?x1 + ?w * 4 \<le> (mw * cc) * (mh * rc) * 4" using li(2) by (simp add: line_start_def)
  have 3: "?x1 \<le> ?x1 + ?w * 4" using w by simp
  have 4: "?x1 + ?w * 4 \<le> int (length buf)" using 2 assms(10) by simp
  have 5: "length (tile_line tile y) = nat (?x1 + ?w * 4 - ?x1)"
    using tile_line_length[OF assms(1,2,3)] by simp
  show "length (copy_line tile (mw * cc, mh * rc) ri ci buf y) = length buf"
    unfolding copy_line_eq by (rule py_slice_assign_inside(1)[OF 1 3 4 5])
qed

lemma py_range_Suc: "py_range (int (Suc j)) = py_range (int j) @ [int j]"
  unfolding py_range_def nat_int by simp

lemma py_range_nat: "0 \<le> y \<Longrightarrow> py_range y = py_range (int (nat y))"
  by (simp add: py_range_def)

lemma copy_lines_length:
  assumes "valid_image tile"
    and "fst (img_size tile) \<le> mw" "snd (img_size tile) \<le> mh"
    and "0 \<le> ri" "ri < rc" "0 \<le> ci" "ci < cc"
    and "int (length buf) = (mw * cc) * (mh * rc) * 4"
  shows "int j \<le> snd (img_size tile) \<Longrightarrow>
         length (foldl (copy_line tile (mw * cc, mh * rc) ri ci) buf (py_range (int j))) = length buf"
proof (induction j)
  case 0
  then show ?case by (simp add: py_range_def)
next
  case (Suc j)
  let ?b = "foldl (copy_line tile (mw * cc, mh * rc) ri ci) buf (py_range (int j))"
  have l: "length ?b = length buf" using Suc by simp
  have "length (copy_line tile (mw * cc, mh * rc) ri ci ?b (int j)) = length ?b"
    using Suc.prems assms(8) l
    by (intro copy_line_inside(3)[OF assms(1) _ _ assms(2,3,4,5,6,7)]) simp_all
  then show ?case using l unfolding py_range_Suc by simp
qed

lemma copy_tile_length:
  assumes "1 \<le> cc" and "\<forall>img\<in>set images. valid_image img"
    and "row_count_get (int (length images)) cc = Inr rc"
    and "i < length images"
    and "int (length buf) = fst (tilemap_size_of images rc cc) * snd (tilemap_size_of images rc cc) * 4"
  shows "length (copy_tile images (tilemap_size_of images rc cc) rc cc order buf (int i)) = length buf"
proof -
  let ?tile = "images ! i"
  have t: "?tile \<in> set images" using assms(4) by simp
  have v: "valid_image ?tile" using assms(2) t by blast
  have rb: "0 \<le> row_index rc cc order (int i)" "row_index rc cc order (int i) < rc"
    using row_index_bounds[OF assms(1) _ _ assms(3), of "int i" order] assms(4) by simp_all
  have cb: "0 \<le> column_index cc (int i)" "column_index cc (int i) < cc"
    using assms(1) by (simp_all add: column_index_def)
  have h: "0 \<le> snd (img_size ?tile)" using v by (simp add: valid_image_def)
  have b: "int (length buf) = (fst (max_size images) * cc) * (snd (max_size images) * rc) * 4"
    using assms(5) by (simp add: tilemap_size_of_def)
  have "length (foldl (copy_line ?tile (fst (max_size images) * cc, snd (max_size images) * rc)
                  (row_index rc cc order (int i)) (column_index cc (int i)))
           buf (py_range (int (nat (snd (img_size ?tile)))))) = length buf"
    using h by (intro copy_lines_length[OF v max_size_ge(3)[OF t] max_size_ge(4)[OF t] rb cb b]) simp
  then show ?thesis
    using py_range_nat[OF h] by (simp add: copy_tile_def tilemap_size_of_def Let_def)
qed

lemma tilemap_after_length:
  assumes "1 \<le> cc" and "\<forall>img\<in>set images. valid_image img"
    and "row_count_get (int (length images)) cc = Inr rc"
  shows "k \<le> length images \<Longrightarrow>
         int (length (tilemap_after (int k) images rc cc order))
           = fst (tilemap_size_of images rc cc) * snd (tilemap_size_of images rc cc) * 4"
proof (induction k)
  case 0
  have "0 \<le> real (length images) / real_of_int cc" using assms(1) by simp
  then have "- 1 < real (length images) / real_of_int cc" by linarith
  then have "0 \<le> rc" using assms(1,3) by (auto simp: row_count_get_def split: if_splits)
  then have "0 \<le> fst (tilemap_size_of images rc cc)" "0 \<le> snd (tilemap_size_of images rc cc)"
    using assms(1) max_size_ge(1,2)[of images] by (simp_all add: tilemap_size_of_def)
  from blank_pixels_length[OF this] show ?case
    by (simp add: tilemap_after_def py_range_def tilemap_size_of_def Let_def)
next
  case (Suc k)
  let ?b = "tilemap_after (int k) images rc cc order"
  have l: "int (length ?b) = fst (tilemap_size_of images rc cc) * snd (tilemap_size_of images rc cc) * 4"
    using Suc by simp
  have k: "k < length images" using Suc.prems by simp
  have e: "tilemap_after (int (Suc k)) images rc cc order
             = copy_tile images (tilemap_size_of images rc cc) rc cc order ?b (int k)"
    unfolding tilemap_after_def py_range_Suc by (simp add: tilemap_size_of_def Let_def)
  show ?case unfolding e copy_tile_length[OF assms k l] by (rule l)
qed

text \<open>
  C10. For images that satisfy \<open>valid_image\<close> and at least one column: the copy of line
  \<open>y\<close> of tile \<open>i\<close> is a slice assignment whose bounds lie inside the tile map, whose
  right-hand side has exactly the length of the slice, and which leaves the length of
  the tile map at \<open>width * height * 4\<close>; the tile map has that length before the write,
  after it, after each round of the loop over the tiles, and in the returned image.
\<close>

theorem slice_writes_stay_inside:
  assumes "1 \<le> column_count" and "\<forall>img\<in>set images. valid_image img"
    and "row_count_get (int (length images)) column_count = Inr row_count"
    and "i < length images" and "0 \<le> y" and "y < snd (img_size (images ! i))"
    and "k \<le> length images"
  shows "copy_line (images ! i) (tilemap_size_of images row_count column_count)
           (row_index row_count column_count order (int i)) (column_index column_count (int i))
           (buffer_before images row_count column_count order i y) y
         = py_slice_assign (buffer_before images row_count column_count order i y)
             (line_start (img_size (images ! i)) (tilemap_size_of images row_count column_count)
                 (row_index row_count column_count order (int i)) (column_index column_count (int i)) y)
             (line_start (img_size (images ! i)) (tilemap_size_of images row_count column_count)
                 (row_index row_count column_count order (int i)) (column_index column_count (int i)) y
               + fst (img_size (images ! i)) * 4)
             (tile_line (images ! i) y)
       \<and> 0 \<le> line_start (img_size (images ! i)) (tilemap_size_of images row_count column_count)
                 (row_index row_count column_count order (int i)) (column_index column_count (int i)) y
       \<and> line_start (img_size (images ! i)) (tilemap_size_of images row_count column_count)
                 (row_index row_count column_count order (int i)) (column_index column_count (int i)) y
            + fst (img_size (images ! i)) * 4
          \<le> fst (tilemap_size_of images row_count column_count)
               * snd (tilemap_size_of images row_count column_count) * 4
       \<and> int (length (tile_line (images ! i) y)) = fst (img_size (images ! i)) * 4
       \<and> int (length (buffer_before images row_count column_count order i y))
            = fst (tilemap_size_of images row_count column_count)
               * snd (tilemap_size_of images row_count column_count) * 4
       \<and> int (length (copy_line (images ! i) (tilemap_size_of images row_count column_count)
                 (row_index row_count column_count order (int i)) (column_index column_count (int i))
                 (buffer_before images row_count column_count order i y) y))
            = fst (tilemap_size_of images row_count column_count)
               * snd (tilemap_size_of images row_count column_count) * 4
       \<and> int (length (tilemap_after (int k) images row_count column_count order))
            = fst (tilemap_size_of images row_count column_count)
               * snd (tilemap_size_of images row_count column_count) * 4
       \<and> int (length (pixels (compose images row_count column_count order)))
            = fst (img_size (compose images row_count column_count order))
               * snd (img_size (compose images row_count column_count order)) * 4"
proof -
  let ?tile = "images ! i"
  let ?mw = "fst (max_size images)" and ?mh = "snd (max_size images)"
  let ?ri = "row_index row_count column_count order (int i)"
  let ?ci = "column_index column_count (int i)"
  have ts: "tilemap_size_of images row_count column_count = (?mw * column_count, ?mh * row_count)"
    by (simp add: tilemap_size_of_def)
  have t: "?tile \<in> set images" using assms(4) by simp
  have v: "valid_image ?tile" using assms(2) t by blast
  have rb: "0 \<le> ?ri" "?ri < row_count"
    using row_index_bounds[OF assms(1) _ _ assms(3), of "int i" order] assms(4) by simp_all
  have cb: "0 \<le> ?ci" "?ci < column_count"
    using assms(1) by (simp_all add: column_index_def)
  have la: "int (length (tilemap_after (int j) images row_count column_count order))
              = (?mw * column_count) * (?mh * row_count) * 4" if "j \<le> length images" for j
    using tilemap_after_length[OF assms(1,2,3) that, of order] by (simp add: ts)
  have y: "int (nat y) \<le> snd (img_size ?tile)" using assms(5,6) by simp
  have lb: "int (length (buffer_before images row_count column_count order i y))
              = (?mw * column_count) * (?mh * row_count) * 4"
    unfolding buffer_before_def ts py_range_nat[OF assms(5)]
      copy_lines_length[OF v max_size_ge(3)[OF t] max_size_ge(4)[OF t] rb cb la[of i] y, OF less_imp_le[OF assms(4)]]
    by (rule la) (use assms(4) in simp)
  note ci = copy_line_inside[OF v assms(5,6) max_size_ge(3)[OF t] max_size_ge(4)[OF t] rb cb lb]
  have 1: "0 \<le> line_start (img_size ?tile) (tilemap_size_of images row_count column_count) ?ri ?ci y"
    unfolding ts by (rule ci(1))
  have 2: "line_start (img_size ?tile) (tilemap_size_of images row_count column_count) ?ri ?ci y
            + fst (img_size ?tile) * 4
          \<le> fst (tilemap_size_of images row_count column_count)
               * snd (tilemap_size_of images row_count column_count) * 4"
    unfolding ts fst_conv snd_conv by (rule ci(2))
  have 3: "int (length (tile_line ?tile y)) = fst (img_size ?tile) * 4"
    by (rule tile_line_length[OF v assms(5,6)])
  have 4: "int (length (buffer_before images row_count column_count order i y))
            = fst (tilemap_size_of images row_count column_count)
               * snd (tilemap_size_of images row_count column_count) * 4"
    unfolding ts fst_conv snd_conv by (rule lb)
  have 5: "int (length (copy_line ?tile (tilemap_size_of images row_count column_count) ?ri ?ci
                 (buffer_before images row_count column_count order i y) y))
            = fst (tilemap_size_of images row_count column_count)
               * snd (tilemap_size_of images row_count column_count) * 4"
    unfolding ts fst_conv snd_conv ci(3) by (rule lb)
  have 6: "int (length (tilemap_after (int k) images row_count column_count order))
            = fst (tilemap_size_of images row_count column_count)
               * snd (tilemap_size_of images row_count column_count) * 4"
    unfolding ts fst_conv snd_conv by (rule la[OF assms(7)])
  have 7: "int (length (pixels (compose images row_count column_count order)))
            = fst (img_size (compose images row_count column_count order))
               * snd (img_size (compose images row_count column_count order)) * 4"
    using la[of "length images"] by (simp add: compose_def)
  have 0: "copy_line ?tile (tilemap_size_of images row_count column_count) ?ri ?ci
             (buffer_before images row_count column_count order i y) y
         = py_slice_assign (buffer_before images row_count column_count order i y)
             (line_start (img_size ?tile) (tilemap_size_of images row_count column_count) ?ri ?ci y)
             (line_start (img_size ?tile) (tilemap_size_of images row_count column_count) ?ri ?ci y
               + fst (img_size ?tile) * 4)
             (tile_line ?tile y)"
    by (rule copy_line_eq)
  show ?thesis using 0 1 2 3 4 5 6 7 by blast
qed

text \<open>
  For loaded images of at least one pixel each that satisfy \<open>valid_image\<close>, and at
  least one column, lines 315 to 350 end normally: the data block has the size
  \<^verbatim>\<open>tilemap_size\<close>, and the list that is assigned has the length of its pixels.
\<close>

lemma create_tilemap_finishes:
  assumes cc: "1 \<le> cc" and ne: "images \<noteq> []"
    and v: "\<forall>img\<in>set images. valid_image img \<and> 1 \<le> fst (img_size img) \<and> 1 \<le> snd (img_size img)"
    and rc: "row_count_get (int (length images)) cc = Inr rc"
  shows "create_tilemap images (prop_read (row_count_get (int (length images)) cc)) cc order
         = (Inr (), [Image_New (tilemap_size_of images rc cc),
                     Pixels_Assign (tilemap_after (int (length images)) images rc cc order)])"
proof -
  have v': "\<forall>img\<in>set images. valid_image img" using v by simp
  obtain img where img: "img \<in> set images" using ne by (cases images) auto
  have mw: "1 \<le> fst (max_size images)" using max_size_ge(3)[OF img] v img by force
  have mh: "1 \<le> snd (max_size images)" using max_size_ge(4)[OF img] v img by force
  have "0 < real (length images) / real_of_int cc" using cc ne by simp
  then have "0 < \<lceil>real (length images) / real_of_int cc\<rceil>" by simp
  then have rc1: "1 \<le> rc" using rc cc by (auto simp: row_count_get_def split: if_splits)
  have w: "1 \<le> fst (max_size images) * cc" using mult_mono[of 1 "fst (max_size images)" 1 cc] mw cc by simp
  have h: "1 \<le> snd (max_size images) * rc" using mult_mono[of 1 "snd (max_size images)" 1 rc] mh rc1 by simp
  have new: "images_new (fst (max_size images) * cc, snd (max_size images) * rc)
             = tilemap_size_of images rc cc"
    using w h by (simp add: images_new_def tilemap_size_of_def)
  have len: "int (length (tilemap_after (int (length images)) images rc cc order))
           = fst (tilemap_size_of images rc cc) * snd (tilemap_size_of images rc cc) * 4"
    by (rule tilemap_after_length[OF cc v' rc order_refl])
  have asg: "assign_pixels (tilemap_size_of images rc cc)
               (tilemap_after (int (length images)) images rc cc order) = Inr ()"
    using len by (simp add: assign_pixels_def)
  have cc0: "cc \<noteq> 0" using cc by simp
  show ?thesis
    by (simp add: create_tilemap_def Let_def rc prop_read_def new asg cc0)
qed

lemma copy_line_nth:
  assumes "valid_image tile" "0 \<le> y" "y < snd (img_size tile)"
    and "fst (img_size tile) \<le> mw" "snd (img_size tile) \<le> mh"
    and "0 \<le> ri" "ri < rc" "0 \<le> ci" "ci < cc"
    and "int (length buf) = (mw * cc) * (mh * rc) * 4"
    and "p < length buf"
  shows "copy_line tile (mw * cc, mh * rc) ri ci buf y ! p =
     (if line_start (img_size tile) (mw * cc, mh * rc) ri ci y \<le> int p \<and>
         int p < line_start (img_size tile) (mw * cc, mh * rc) ri ci y + fst (img_size tile) * 4
      then tile_line tile y ! (p - nat (line_start (img_size tile) (mw * cc, mh * rc) ri ci y))
      else buf ! p)"
proof -
  let ?w = "fst (img_size tile)"
  let ?x1 = "line_start (img_size tile) (mw * cc, mh * rc) ri ci y"
  have w: "0 \<le> ?w" using assms(1) by (simp add: valid_image_def)
  note ci = copy_line_inside[OF assms(1-10)]
  have 3: "?x1 \<le> ?x1 + ?w * 4" using w by simp
  have 4: "?x1 + ?w * 4 \<le> int (length buf)" using ci(2) assms(10) by simp
  have 5: "length (tile_line tile y) = nat (?x1 + ?w * 4 - ?x1)"
    using tile_line_length[OF assms(1,2,3)] by simp
  have a: "nat ?x1 \<le> p \<longleftrightarrow> ?x1 \<le> int p" using ci(1) by linarith
  have b: "p < nat (?x1 + ?w * 4) \<longleftrightarrow> int p < ?x1 + ?w * 4" using ci(1) w by linarith
  show ?thesis
    unfolding copy_line_eq py_slice_assign_inside(2)[OF ci(1) 3 4 5 assms(11)] a b ..
qed

lemma copy_lines_untouched:
  assumes "valid_image tile"
    and "fst (img_size tile) \<le> mw" "snd (img_size tile) \<le> mh"
    and "0 \<le> ri" "ri < rc" "0 \<le> ci" "ci < cc"
    and "int (length buf) = (mw * cc) * (mh * rc) * 4"
    and "p < length buf"
    and "\<And>y. 0 \<le> y \<Longrightarrow> y < snd (img_size tile) \<Longrightarrow>
           \<not> (line_start (img_size tile) (mw * cc, mh * rc) ri ci y \<le> int p \<and>
              int p < line_start (img_size tile) (mw * cc, mh * rc) ri ci y + fst (img_size tile) * 4)"
  shows "int j \<le> snd (img_size tile) \<Longrightarrow>
         foldl (copy_line tile (mw * cc, mh * rc) ri ci) buf (py_range (int j)) ! p = buf ! p"
proof (induction j)
  case 0
  then show ?case by (simp add: py_range_def)
next
  case (Suc j)
  let ?b = "foldl (copy_line tile (mw * cc, mh * rc) ri ci) buf (py_range (int j))"
  have j: "int j \<le> snd (img_size tile)" "0 \<le> int j" "int j < snd (img_size tile)"
    using Suc.prems by simp_all
  have l: "length ?b = length buf"
    by (rule copy_lines_length[OF assms(1-8) j(1)])
  have lb: "int (length ?b) = (mw * cc) * (mh * rc) * 4" and pb: "p < length ?b"
    using l assms(8,9) by simp_all
  have "copy_line tile (mw * cc, mh * rc) ri ci ?b (int j) ! p = ?b ! p"
    unfolding copy_line_nth[OF assms(1) j(2,3) assms(2-7) lb pb]
    by (rule if_not_P[OF assms(10)[OF j(2,3)]])
  then show ?case unfolding py_range_Suc using Suc.IH[OF j(1)] by simp
qed

lemma copy_tile_untouched:
  assumes "1 \<le> cc" and "\<forall>img\<in>set images. valid_image img"
    and "row_count_get (int (length images)) cc = Inr rc"
    and "i < length images"
    and "int (length buf) = fst (tilemap_size_of images rc cc) * snd (tilemap_size_of images rc cc) * 4"
    and "p < length buf"
    and "\<not> written_by images rc cc order i p"
  shows "copy_tile images (tilemap_size_of images rc cc) rc cc order buf (int i) ! p = buf ! p"
proof -
  let ?tile = "images ! i"
  let ?ts = "(fst (max_size images) * cc, snd (max_size images) * rc)"
  have ts: "tilemap_size_of images rc cc = ?ts" by (simp add: tilemap_size_of_def)
  have t: "?tile \<in> set images" using assms(4) by simp
  have v: "valid_image ?tile" using assms(2) t by blast
  have rb: "0 \<le> row_index rc cc order (int i)" "row_index rc cc order (int i) < rc"
    using row_index_bounds[OF assms(1) _ _ assms(3), of "int i" order] assms(4) by simp_all
  have cb: "0 \<le> column_index cc (int i)" "column_index cc (int i) < cc"
    using assms(1) by (simp_all add: column_index_def)
  have h: "0 \<le> snd (img_size ?tile)" using v by (simp add: valid_image_def)
  have b: "int (length buf) = (fst (max_size images) * cc) * (snd (max_size images) * rc) * 4"
    using assms(5) by (simp add: tilemap_size_of_def)
  have nw: "\<not> (line_start (img_size ?tile) ?ts (row_index rc cc order (int i)) (column_index cc (int i)) y \<le> int p \<and>
              int p < line_start (img_size ?tile) ?ts (row_index rc cc order (int i)) (column_index cc (int i)) y
                 + fst (img_size ?tile) * 4)"
    if "0 \<le> y" "y < snd (img_size ?tile)" for y
    using assms(7) that unfolding written_by_def ts by blast
  have hh: "int (nat (snd (img_size ?tile))) \<le> snd (img_size ?tile)" using h by simp
  have "foldl (copy_line ?tile ?ts (row_index rc cc order (int i)) (column_index cc (int i)))
           buf (py_range (int (nat (snd (img_size ?tile))))) ! p = buf ! p"
    by (rule copy_lines_untouched[OF v max_size_ge(3)[OF t] max_size_ge(4)[OF t] rb cb b assms(6) nw hh])
  then show ?thesis
    using py_range_nat[OF h] by (simp add: copy_tile_def tilemap_size_of_def Let_def)
qed

lemma tilemap_after_untouched:
  assumes "1 \<le> cc" and "\<forall>img\<in>set images. valid_image img"
    and "row_count_get (int (length images)) cc = Inr rc"
    and "int p < fst (tilemap_size_of images rc cc) * snd (tilemap_size_of images rc cc) * 4"
    and "\<And>i. i < length images \<Longrightarrow> \<not> written_by images rc cc order i p"
  shows "k \<le> length images \<Longrightarrow>
         tilemap_after (int k) images rc cc order ! p = [0, 0, 0, 1] ! (p mod 4)"
proof (induction k)
  case 0
  let ?ts = "tilemap_size_of images rc cc"
  have l: "int (length (tilemap_after (int 0) images rc cc order)) = fst ?ts * snd ?ts * 4"
    by (rule tilemap_after_length[OF assms(1,2,3)]) simp
  have e: "tilemap_after (int 0) images rc cc order = blank_pixels ?ts"
    by (simp add: tilemap_after_def py_range_def tilemap_size_of_def Let_def)
  have "p < length (blank_pixels ?ts)" using l assms(4) unfolding e by linarith
  then have "p < (nat (snd ?ts) * nat (fst ?ts)) * length [0, 0, 0, 1::real]"
    unfolding blank_pixels_eq by (simp add: length_concat sum_list_replicate)
  from concat_replicate_nth[OF this] show ?case using e by (simp add: blank_pixels_eq)
next
  case (Suc k)
  let ?b = "tilemap_after (int k) images rc cc order"
  have k: "k < length images" "k \<le> length images" using Suc.prems by simp_all
  have l: "int (length ?b) = fst (tilemap_size_of images rc cc) * snd (tilemap_size_of images rc cc) * 4"
    by (rule tilemap_after_length[OF assms(1,2,3) k(2)])
  have p: "p < length ?b" using l assms(4) by linarith
  have e: "tilemap_after (int (Suc k)) images rc cc order
             = copy_tile images (tilemap_size_of images rc cc) rc cc order ?b (int k)"
    unfolding tilemap_after_def py_range_Suc by (simp add: tilemap_size_of_def Let_def)
  show ?case
    unfolding e copy_tile_untouched[OF assms(1,2,3) k(1) l p assms(5)[OF k(1)]]
    by (rule Suc.IH[OF k(2)])
qed

lemma same_block:
  fixes q q' m z :: int
  assumes "0 < m" "q * m \<le> z" "z < (q + 1) * m" "q' * m \<le> z" "z < (q' + 1) * m"
  shows "q = q'"
proof (rule ccontr)
  assume "q \<noteq> q'"
  then consider "q + 1 \<le> q'" | "q' + 1 \<le> q" by linarith
  then show False
  proof cases
    case 1
    then have "(q + 1) * m \<le> q' * m" using assms(1) by (intro mult_right_mono) simp_all
    then show False using assms by linarith
  next
    case 2
    then have "(q' + 1) * m \<le> q * m" using assms(1) by (intro mult_right_mono) simp_all
    then show False using assms by linarith
  qed
qed

lemma quarter:
  fixes A B w :: int
  assumes "A * 4 \<le> B * 4 + int ch" "B * 4 + int ch < A * 4 + w * 4" "ch < 4"
  shows "A \<le> B \<and> B < A + w"
  using assms by linarith

lemma uniform_max_size:
  assumes "images \<noteq> []" and "\<forall>img\<in>set images. valid_image img \<and> img_size img = (w, h)"
  shows "max_size images = (w, h)"
proof -
  have s: "img_size ` set images = {(w, h)}" using assms by (cases images) auto
  have n: "\<forall>img\<in>set images. 0 \<le> fst (img_size img) \<and> 0 \<le> snd (img_size img)"
    using assms(2) by (auto simp: valid_image_def)
  show ?thesis unfolding max_size_eq[OF assms(1) n] image_image[symmetric] s by simp
qed

lemma free_cell_not_written:
  assumes cc: "1 \<le> cc" and ne: "images \<noteq> []"
    and un: "\<forall>img\<in>set images. valid_image img \<and> img_size img = (w, h)"
    and rcg: "row_count_get (int (length images)) cc = Inr rc"
    and r: "0 \<le> r" "r < rc" and c: "0 \<le> c" "c < cc"
    and x: "0 \<le> x" "x < w" and y: "0 \<le> y" "y < h" and ch: "ch < 4"
    and free: "(row_index rc cc order (int i), column_index cc (int i)) \<noteq> (r, c)"
    and i: "i < length images"
  shows "\<not> written_by images rc cc order i (nat (((r * h + y) * (w * cc) + (c * w + x)) * 4) + ch)"
proof
  let ?ri = "row_index rc cc order (int i)" and ?ci = "column_index cc (int i)"
  let ?W = "w * cc"
  let ?B = "(r * h + y) * ?W + (c * w + x)"
  let ?p = "nat (?B * 4) + ch"
  assume "written_by images rc cc order i ?p"
  then obtain y' where y': "0 \<le> y'" "y' < snd (img_size (images ! i))"
    and lo: "line_start (img_size (images ! i)) (tilemap_size_of images rc cc) ?ri ?ci y' \<le> int ?p"
    and hi: "int ?p < line_start (img_size (images ! i)) (tilemap_size_of images rc cc) ?ri ?ci y'
                + fst (img_size (images ! i)) * 4"
    unfolding written_by_def by blast
  have sz: "img_size (images ! i) = (w, h)" using un i by simp
  have ts: "tilemap_size_of images rc cc = (?W, h * rc)"
    by (simp add: tilemap_size_of_def uniform_max_size[OF ne un])
  have w: "0 < w" and h: "0 < h" using x y by simp_all
  have W: "0 < ?W" using w cc by simp
  have rb: "0 \<le> ?ri" "?ri < rc"
    using row_index_bounds[OF cc _ _ rcg, of "int i" order] i by simp_all
  have cb: "0 \<le> ?ci" "?ci < cc" using cc by (simp_all add: column_index_def)
  let ?A = "(?ri * h + y') * ?W + ?ci * w"
  have ls: "line_start (w, h) (tilemap_size_of images rc cc) ?ri ?ci y' = ?A * 4"
    unfolding ts by (simp add: line_start_def algebra_simps)
  have B0: "0 \<le> ?B" using r c x y W w h by simp
  have p: "int ?p = ?B * 4 + int ch" using B0 by simp
  have lo': "?A * 4 \<le> ?B * 4 + int ch" using lo unfolding sz ls p .
  have hi': "?B * 4 + int ch < ?A * 4 + w * 4" using hi unfolding sz ls p fst_conv .
  have AB: "?A \<le> ?B" "?B < ?A + w"
    using quarter[OF lo' hi' ch] by blast+
  have y'h: "y' < h" using y' sz by simp
  have col: "c * w + x < ?W" and col0: "0 \<le> c * w + x"
  proof -
    have "(c + 1) * w \<le> cc * w" using c w by (intro mult_right_mono) simp_all
    then show "c * w + x < ?W" using x by (simp add: algebra_simps)
    show "0 \<le> c * w + x" using c x w by simp
  qed
  have coli: "?ci * w + w \<le> ?W" and coli0: "0 \<le> ?ci * w"
  proof -
    have "(?ci + 1) * w \<le> cc * w" using cb w by (intro mult_right_mono) simp_all
    then show "?ci * w + w \<le> ?W" by (simp add: algebra_simps)
    show "0 \<le> ?ci * w" using cb w by simp
  qed
  have rows: "?ri * h + y' = r * h + y"
  proof (rule same_block[OF W, of _ ?B])
    show "(?ri * h + y') * ?W \<le> ?B" using AB(1) coli0 by linarith
    show "?B < (?ri * h + y' + 1) * ?W" using AB(2) coli by (simp add: algebra_simps)
    show "(r * h + y) * ?W \<le> ?B" using col0 by linarith
    show "?B < (r * h + y + 1) * ?W" using col by (simp add: algebra_simps)
  qed
  have req: "?ri = r"
  proof (rule same_block[OF h, of _ "r * h + y"])
    show "?ri * h \<le> r * h + y" using rows y' by linarith
    show "r * h + y < (?ri + 1) * h" using rows y'h by (simp add: algebra_simps)
    show "r * h \<le> r * h + y" using y by simp
    show "r * h + y < (r + 1) * h" using y by (simp add: algebra_simps)
  qed
  have cols: "?ci * w \<le> c * w + x" "c * w + x < ?ci * w + w"
    using AB rows by simp_all
  have ceq: "?ci = c"
  proof (rule same_block[OF w, of _ "c * w + x"])
    show "?ci * w \<le> c * w + x" by (rule cols(1))
    show "c * w + x < (?ci + 1) * w" using cols(2) by (simp add: algebra_simps)
    show "c * w \<le> c * w + x" using x by simp
    show "c * w + x < (c + 1) * w" using x by (simp add: algebra_simps)
  qed
  show False using free req ceq by simp
qed

lemma set_py_range: "set (py_range k) = {y. 0 \<le> y \<and> y < k}"
proof (rule set_eqI)
  fix y
  have s: "set (py_range k) = int ` {0..<nat k}" by (simp add: py_range_def)
  show "y \<in> set (py_range k) \<longleftrightarrow> y \<in> {y. 0 \<le> y \<and> y < k}"
  proof
    assume "y \<in> set (py_range k)"
    then show "y \<in> {y. 0 \<le> y \<and> y < k}" unfolding s by auto
  next
    assume "y \<in> {y. 0 \<le> y \<and> y < k}"
    then have "y = int (nat y)" "nat y \<in> {0..<nat k}" by simp_all
    then show "y \<in> set (py_range k)" unfolding s by (rule image_eqI)
  qed
qed

lemma background_slice:
  fixes buf :: "real list"
  assumes "0 \<le> a" "a * 4 + 4 \<le> int (length buf)"
    and "\<And>ch. ch < 4 \<Longrightarrow> buf ! (nat (a * 4) + ch) = [0, 0, 0, 1] ! ((nat (a * 4) + ch) mod 4)"
  shows "py_slice buf (a * 4) (a * 4 + 4) = [0, 0, 0, 1]"
proof -
  have 1: "0 \<le> a * 4" "a * 4 \<le> a * 4 + 4" using assms(1) by simp_all
  have e: "py_slice buf (a * 4) (a * 4 + 4) = take 4 (drop (nat (a * 4)) buf)"
    using py_slice_inside(1)[OF 1 assms(2)] by simp
  have n: "nat (a * 4) = 4 * nat a" using assms(1) by (simp add: nat_mult_distrib)
  have l: "nat (a * 4) + 4 \<le> length buf" using assms(1,2) by linarith
  show ?thesis unfolding e
  proof (rule nth_equalityI)
    show "length (take 4 (drop (nat (a * 4)) buf)) = length [0, 0, 0, 1::real]" using l by simp
    fix ch assume "ch < length (take 4 (drop (nat (a * 4)) buf))"
    then have ch: "ch < 4" by simp
    have "take 4 (drop (nat (a * 4)) buf) ! ch = buf ! (nat (a * 4) + ch)"
      using ch l by simp
    also have "\<dots> = [0, 0, 0, 1] ! ((nat (a * 4) + ch) mod 4)" by (rule assms(3)[OF ch])
    also have "(nat (a * 4) + ch) mod 4 = ch" unfolding n using ch by simp
    finally show "take 4 (drop (nat (a * 4)) buf) ! ch = [0, 0, 0, 1] ! ch" .
  qed
qed

lemma free_cell_background:
  assumes cc: "1 \<le> cc" and ne: "images \<noteq> []"
    and un: "\<forall>img\<in>set images. valid_image img \<and> img_size img = (w, h)"
    and rcg: "row_count_get (int (length images)) cc = Inr rc"
    and cell: "(r, c) \<in> free_cells rc cc order (length images)"
  shows "cell_is_background (compose images rc cc order) (w, h) r c"
  unfolding cell_is_background_def fst_conv snd_conv set_py_range
proof (intro ballI)
  fix y x assume "y \<in> {y. 0 \<le> y \<and> y < h}" "x \<in> {x. 0 \<le> x \<and> x < w}"
  then have y: "0 \<le> y" "y < h" and x: "0 \<le> x" "x < w" by simp_all
  have r: "0 \<le> r" "r < rc" and c: "0 \<le> c" "c < cc"
    and free: "\<And>i. i < length images \<Longrightarrow>
        (row_index rc cc order (int i), column_index cc (int i)) \<noteq> (r, c)"
    using cell by (simp_all add: free_cells_def)
  have v: "\<forall>img\<in>set images. valid_image img" using un by blast
  let ?out = "compose images rc cc order"
  let ?W = "w * cc" and ?H = "h * rc"
  have ts: "tilemap_size_of images rc cc = (?W, ?H)"
    by (simp add: tilemap_size_of_def uniform_max_size[OF ne un])
  have os: "img_size ?out = (?W, ?H)"
    by (simp add: compose_def uniform_max_size[OF ne un])
  have px: "pixels ?out = tilemap_after (int (length images)) images rc cc order"
    by (simp add: compose_def)
  let ?B = "(r * h + y) * ?W + (c * w + x)"
  have w: "0 < w" and h: "0 < h" using x y by simp_all
  have W: "0 < ?W" using w cc by simp
  have B0: "0 \<le> ?B" using r c x y W w h by simp
  have col: "c * w + x + 1 \<le> ?W"
  proof -
    have "(c + 1) * w \<le> cc * w" using c w by (intro mult_right_mono) simp_all
    then show ?thesis using x by (simp add: algebra_simps)
  qed
  have row: "r * h + y + 1 \<le> ?H"
  proof -
    have "(r + 1) * h \<le> rc * h" using r h by (intro mult_right_mono) simp_all
    then show ?thesis using y by (simp add: algebra_simps)
  qed
  have "(r * h + y + 1) * ?W \<le> ?H * ?W" using row W by (intro mult_right_mono) simp_all
  moreover have "?B + 1 \<le> (r * h + y + 1) * ?W" using col by (simp add: algebra_simps)
  ultimately have B1: "?B + 1 \<le> ?W * ?H" by (simp add: mult.commute)
  have len: "int (length (pixels ?out)) = ?W * ?H * 4"
    unfolding px using tilemap_after_length[OF cc v rcg le_refl, of order] by (simp add: ts)
  have inb: "?B * 4 + 4 \<le> int (length (pixels ?out))" unfolding len using B1 by simp
  have bg: "pixels ?out ! (nat (?B * 4) + ch) = [0, 0, 0, 1] ! ((nat (?B * 4) + ch) mod 4)"
    if ch: "ch < 4" for ch
    unfolding px
  proof (rule tilemap_after_untouched[OF cc v rcg _ _ le_refl])
    show "int (nat (?B * 4) + ch)
            < fst (tilemap_size_of images rc cc) * snd (tilemap_size_of images rc cc) * 4"
      unfolding ts fst_conv snd_conv using B0 B1 ch by simp
    show "\<not> written_by images rc cc order i (nat (?B * 4) + ch)" if "i < length images" for i
      by (rule free_cell_not_written[OF cc ne un rcg r c x y ch free[OF that] that])
  qed
  have "pixel ?out (c * w + x) (r * h + y) = py_slice (pixels ?out) (?B * 4) (?B * 4 + 4)"
    by (simp add: pixel_def os)
  also have "\<dots> = [0, 0, 0, 1]" by (rule background_slice[OF B0 inb bg])
  finally show "pixel ?out (c * w + x) (r * h + y) = [0, 0, 0, 1]" .
qed

lemma card_free_cells:
  assumes cc: "1 \<le> cc" and rcg: "row_count_get (int n) cc = Inr rc"
  shows "int (card (free_cells rc cc order n)) = rc * cc - int n"
proof -
  let ?f = "\<lambda>i. (row_index rc cc order (int i), column_index cc (int i))"
  let ?grid = "{0..<rc} \<times> {0..<cc}"
  have fc: "free_cells rc cc order n = ?grid - ?f ` {..<n}"
    by (auto simp: free_cells_def)
  have sub: "?f ` {..<n} \<subseteq> ?grid"
  proof
    fix z assume "z \<in> ?f ` {..<n}"
    then obtain i where i: "i < n" and z: "z = ?f i" by auto
    have "0 \<le> row_index rc cc order (int i)" "row_index rc cc order (int i) < rc"
      using row_index_bounds[OF cc _ _ rcg, of "int i" order] i by simp_all
    moreover have "0 \<le> column_index cc (int i)" "column_index cc (int i) < cc"
      using cc by (simp_all add: column_index_def)
    ultimately show "z \<in> ?grid" using z by simp
  qed
  have inj: "inj_on ?f {..<n}"
  proof (rule inj_onI)
    fix i j assume "?f i = ?f j"
    then have "int i = int j" using cell_inj[OF cc, of rc order "int i" "int j"] by simp
    then show "i = j" by simp
  qed
  have ci: "card (?f ` {..<n}) = n" using card_image[OF inj] by simp
  have cg: "card ?grid = nat rc * nat cc" by simp
  have le: "n \<le> nat rc * nat cc"
    using card_mono[OF _ sub] ci cg by simp
  have rc0: "0 \<le> rc"
  proof -
    have "0 \<le> real_of_int (int n) / real_of_int cc" using cc by simp
    then have "- 1 < real_of_int (int n) / real_of_int cc" by linarith
    then show ?thesis using cc rcg by (auto simp: row_count_get_def split: if_splits)
  qed
  have "card (free_cells rc cc order n) = nat rc * nat cc - n"
    unfolding fc using card_Diff_subset[OF _ sub] ci cg by simp
  then have "int (card (free_cells rc cc order n)) = int (nat rc * nat cc) - int n"
    using le by simp
  also have "int (nat rc * nat cc) = rc * cc" using rc0 cc by simp
  finally show ?thesis .
qed

text \<open>
  Before the loop every pixel of the tile map is \<open>(0, 0, 0, 1)\<close>. When all images
  have the same size \<open>w x h\<close>, the grid has exactly
  \<open>row_count * column_count - n\<close> cells that no image is placed in, and every pixel of
  each of these cells is still \<open>(0, 0, 0, 1)\<close> in the composed tile map.
\<close>

lemma free_cells_stay_background:
  assumes "1 \<le> column_count" and "images \<noteq> []"
    and "\<forall>img\<in>set images. valid_image img \<and> img_size img = (w, h)"
    and "row_count_get (int (length images)) column_count = Inr row_count"
  shows "tilemap_after 0 images row_count column_count order
           = concat (replicate (nat (h * row_count) * nat (w * column_count)) [0, 0, 0, 1]) \<and>
         int (card (free_cells row_count column_count order (length images)))
           = row_count * column_count - int (length images) \<and>
         (\<forall>(r, c)\<in>free_cells row_count column_count order (length images).
            cell_is_background (compose images row_count column_count order) (w, h) r c)"
proof -
  have 1: "tilemap_after 0 images row_count column_count order
           = concat (replicate (nat (h * row_count) * nat (w * column_count)) [0, 0, 0, 1])"
    by (simp add: tilemap_after_def py_range_def blank_pixels_eq uniform_max_size[OF assms(2,3)])
  have 2: "int (card (free_cells row_count column_count order (length images)))
           = row_count * column_count - int (length images)"
    by (rule card_free_cells[OF assms(1,4)])
  have 3: "\<forall>(r, c)\<in>free_cells row_count column_count order (length images).
            cell_is_background (compose images row_count column_count order) (w, h) r c"
    using free_cell_background[OF assms] by blast
  show ?thesis using 1 2 3 by blast
qed

lemma valid_tiles: "valid_image tile_a" "valid_image tile_b" "valid_image tile_c" "valid_image tile_d"
  by (simp_all add: valid_image_def tile_a_def tile_b_def tile_c_def tile_d_def)

text \<open>The theorem at the second of the two example tiles.\<close>

theorem slice_writes_stay_inside_witness:
  "0 \<le> line_start (img_size ([tile_a, tile_b] ! 1)) (tilemap_size_of [tile_a, tile_b] 1 2)
           (row_index 1 2 top_to_bottom (int 1)) (column_index 2 (int 1)) 0
   \<and> line_start (img_size ([tile_a, tile_b] ! 1)) (tilemap_size_of [tile_a, tile_b] 1 2)
           (row_index 1 2 top_to_bottom (int 1)) (column_index 2 (int 1)) 0
         + fst (img_size ([tile_a, tile_b] ! 1)) * 4
       \<le> fst (tilemap_size_of [tile_a, tile_b] 1 2) * snd (tilemap_size_of [tile_a, tile_b] 1 2) * 4
   \<and> int (length (pixels (compose [tile_a, tile_b] 1 2 top_to_bottom)))
       = fst (img_size (compose [tile_a, tile_b] 1 2 top_to_bottom))
          * snd (img_size (compose [tile_a, tile_b] 1 2 top_to_bottom)) * 4"
proof -
  have h1: "(1::int) \<le> 2" by simp
  have h2: "\<forall>img\<in>set [tile_a, tile_b]. valid_image img" by (simp add: valid_tiles)
  have h3: "row_count_get (int (length [tile_a, tile_b])) 2 = Inr 1"
    by (simp add: row_count_get_def)
  have h4: "1 < length [tile_a, tile_b]" by simp
  have h5: "(0::int) \<le> 0" by simp
  have h6: "0 < snd (img_size ([tile_a, tile_b] ! 1))" by (simp add: tile_b_def)
  have h7: "2 \<le> length [tile_a, tile_b]" by simp
  note t = slice_writes_stay_inside[OF h1 h2 h3 h4 h5 h6 h7, of top_to_bottom]
  show ?thesis using t by blast
qed

text \<open>
  C6. With tiles of different sizes a cell that no image is placed in does not stay
  background. Three tiles of the sizes 1x3, 1x2 and 1x1 in two columns, top to bottom:
  two rows, so one cell of the four is free. The cells are 1x3; the three images have
  the cells \<open>(1, 0)\<close>, \<open>(1, 1)\<close> and \<open>(0, 0)\<close>, and the free cell \<open>(0, 1)\<close> is the
  pixel column 1 in the pixel rows 0 to 2. The first line of the second tile is written
  to pixel row \<open>1 * 2\<close> (its row index times its own height) of pixel column 1,
  inside the free cell. Each of the four cells then holds a pixel of a tile, and no
  cell is entirely background.
\<close>

theorem free_cell_is_overwritten:
  "row_count_get 3 2 = Inr 2 \<and>
   (row_index 2 2 top_to_bottom 0, column_index 2 0) = (1, 0) \<and>
   (row_index 2 2 top_to_bottom 1, column_index 2 1) = (1, 1) \<and>
   (row_index 2 2 top_to_bottom 2, column_index 2 2) = (0, 0) \<and>
   max_size [tile_d, tile_c, tile_b] = (1, 3) \<and>
   generate_texture_atlas [tile_d, tile_c, tile_b] 2 top_to_bottom
     = Inr \<lparr>img_size = (2, 6),
            pixels = [3, 3, 3, 1, 0, 0, 0, 1,
                      0, 0, 0, 1, 0, 0, 0, 1,
                      0, 0, 0, 1, 4, 4, 4, 1,
                      6, 6, 6, 1, 5, 5, 5, 1,
                      7, 7, 7, 1, 0, 0, 0, 1,
                      8, 8, 8, 1, 0, 0, 0, 1]\<rparr> \<and>
   pixel \<lparr>img_size = (2, 6),
            pixels = [3, 3, 3, 1, 0, 0, 0, 1,
                      0, 0, 0, 1, 0, 0, 0, 1,
                      0, 0, 0, 1, 4, 4, 4, 1,
                      6, 6, 6, 1, 5, 5, 5, 1,
                      7, 7, 7, 1, 0, 0, 0, 1,
                      8, 8, 8, 1, 0, 0, 0, 1]\<rparr> 1 2 = [4, 4, 4, 1] \<and>
   pixel \<lparr>img_size = (2, 6),
            pixels = [3, 3, 3, 1, 0, 0, 0, 1,
                      0, 0, 0, 1, 0, 0, 0, 1,
                      0, 0, 0, 1, 4, 4, 4, 1,
                      6, 6, 6, 1, 5, 5, 5, 1,
                      7, 7, 7, 1, 0, 0, 0, 1,
                      8, 8, 8, 1, 0, 0, 0, 1]\<rparr> 0 0 = [3, 3, 3, 1] \<and>
   pixel \<lparr>img_size = (2, 6),
            pixels = [3, 3, 3, 1, 0, 0, 0, 1,
                      0, 0, 0, 1, 0, 0, 0, 1,
                      0, 0, 0, 1, 4, 4, 4, 1,
                      6, 6, 6, 1, 5, 5, 5, 1,
                      7, 7, 7, 1, 0, 0, 0, 1,
                      8, 8, 8, 1, 0, 0, 0, 1]\<rparr> 0 3 = [6, 6, 6, 1] \<and>
   pixel \<lparr>img_size = (2, 6),
            pixels = [3, 3, 3, 1, 0, 0, 0, 1,
                      0, 0, 0, 1, 0, 0, 0, 1,
                      0, 0, 0, 1, 4, 4, 4, 1,
                      6, 6, 6, 1, 5, 5, 5, 1,
                      7, 7, 7, 1, 0, 0, 0, 1,
                      8, 8, 8, 1, 0, 0, 0, 1]\<rparr> 1 3 = [5, 5, 5, 1]"
  by code_simp

end
